theory Spec2Isabelle
  imports Main
begin

section \<open>Text, characters and Python values\<close>

text \<open>
  A Python \<open>str\<close> is modelled as a \<open>string\<close> (a list of 8-bit characters); each
  character stands for the code point with the same number, so the model covers texts
  whose code points are below 256.  Integers are unbounded, but \<open>int()\<close> refuses a
  string of more than \<open>sys.int_max_str_digits\<close> digits with ValueError; the scripts
  leave that limit at the interpreter's default, 4300.
\<close>

abbreviation dquote :: char where
  "dquote \<equiv> CHR 0x22"

definition isspace :: "char \<Rightarrow> bool" where
  \<comment> \<open>the characters Python counts as whitespace (\<open>\s\<close> of a str pattern, \<open>str.strip\<close>)\<close>
  "isspace c = (c \<in> set [CHR 0x09, CHR 0x0A, CHR 0x0B, CHR 0x0C, CHR 0x0D,
                          CHR 0x1C, CHR 0x1D, CHR 0x1E, CHR 0x1F, CHR 0x20,
                          CHR 0x85, CHR 0xA0])"

definition is_decimal :: "char \<Rightarrow> bool" where
  \<comment> \<open>the ASCII digits \<open>0\<close> to \<open>9\<close>\<close>
  "is_decimal c = (48 \<le> (of_char c :: nat) \<and> (of_char c :: nat) \<le> 57)"

definition isdigit_char :: "char \<Rightarrow> bool" where
  \<comment> \<open>\<open>str.isdigit\<close> on one character: the ASCII digits and the superscripts 1, 2, 3\<close>
  "isdigit_char c = (is_decimal c \<or> c \<in> set [CHR 0xB2, CHR 0xB3, CHR 0xB9])"

definition isdigit :: "string \<Rightarrow> bool" where
  "isdigit s = (s \<noteq> [] \<and> list_all isdigit_char s)"

definition strip :: "string \<Rightarrow> string" where
  "strip s = rev (dropWhile isspace (rev (dropWhile isspace s)))"

fun split_on :: "char \<Rightarrow> string \<Rightarrow> string list" where
  \<comment> \<open>\<open>s.split(sep)\<close> for a separator of one character\<close>
  "split_on sep [] = [[]]"
| "split_on sep (c # s) =
     (if c = sep then [] # split_on sep s
      else (case split_on sep s of [] \<Rightarrow> [[c]] | x # xs \<Rightarrow> (c # x) # xs))"

datatype error = IndexError | ValueError | AttributeError

definition int_max_str_digits :: nat where
  \<comment> \<open>the default of \<open>sys.int_max_str_digits\<close>\<close>
  "int_max_str_digits = 4300"

definition py_int :: "string \<Rightarrow> error + int" where
  \<comment> \<open>\<open>int(s)\<close> for a string that passed \<open>isdigit\<close>: the superscript digits are refused,
      and so is a string of more digits than the limit, leading zeros counted\<close>
  "py_int s =
     (if s \<noteq> [] \<and> list_all is_decimal s \<and> length s \<le> int_max_str_digits
      then Inr (foldl (\<lambda>a c. 10 * a + (int (of_char c) - 48)) 0 s)
      else Inl ValueError)"

datatype pyval = PyNone | PyStr string

fun truthy :: "pyval \<Rightarrow> bool" where
  "truthy PyNone = False"
| "truthy (PyStr s) = (s \<noteq> [])"

fun map_err :: "('a \<Rightarrow> error + 'b) \<Rightarrow> 'a list \<Rightarrow> error + 'b list" where
  \<comment> \<open>a loop that builds a list and stops at the first exception\<close>
  "map_err f [] = Inr []"
| "map_err f (x # xs) =
     (case f x of
        Inl e \<Rightarrow> Inl e
      | Inr y \<Rightarrow> (case map_err f xs of Inl e \<Rightarrow> Inl e | Inr ys \<Rightarrow> Inr (y # ys)))"

section \<open>The regular expressions of the command patterns\<close>

text \<open>
  The patterns use literals, the classes \<open>\s\<close>, \<open>[^"]\<close>, \<open>[^\s"]\<close> and \<open>[0-9,\s]\<close>
  under a greedy \<open>+\<close>, capture groups, sequence and alternation.
\<close>

datatype item = Ch char | Rng char char | WS

datatype cset = OneOf "item list" | NoneOf "item list"

datatype regex =
    Lit string
  | Many1 cset
  | Grp nat regex
  | Cat regex regex
  | Alt regex regex

fun item_matches :: "item \<Rightarrow> char \<Rightarrow> bool" where
  "item_matches (Ch a) c = (c = a)"
| "item_matches (Rng a b) c =
     ((of_char a :: nat) \<le> of_char c \<and> (of_char c :: nat) \<le> of_char b)"
| "item_matches WS c = isspace c"

fun cset_matches :: "cset \<Rightarrow> char \<Rightarrow> bool" where
  "cset_matches (OneOf its) c = list_ex (\<lambda>i. item_matches i c) its"
| "cset_matches (NoneOf its) c = (\<not> list_ex (\<lambda>i. item_matches i c) its)"

type_synonym groups = "nat \<Rightarrow> string option"

fun strip_prefix :: "string \<Rightarrow> string \<Rightarrow> string option" where
  "strip_prefix [] s = Some s"
| "strip_prefix (c # w) [] = None"
| "strip_prefix (c # w) (x # s) = (if c = x then strip_prefix w s else None)"

fun greedy :: "(char \<Rightarrow> bool) \<Rightarrow> string \<Rightarrow> string list" where
  \<comment> \<open>what is left after one or more characters of the class, the longest run first\<close>
  "greedy P [] = []"
| "greedy P (c # s) = (if P c then greedy P s @ [s] else [])"

fun regex_match :: "regex \<Rightarrow> string \<Rightarrow> groups \<Rightarrow> (string \<times> groups) list" where
  \<comment> \<open>every way the expression matches at the head of the text, in the order in which
      the backtracking engine tries them: the rest of the text and the groups captured\<close>
  "regex_match (Lit w) s g = (case strip_prefix w s of None \<Rightarrow> [] | Some r \<Rightarrow> [(r, g)])"
| "regex_match (Many1 cs) s g = map (\<lambda>r. (r, g)) (greedy (cset_matches cs) s)"
| "regex_match (Grp i r) s g =
     map (\<lambda>(s', g'). (s', g'(i \<mapsto> take (length s - length s') s))) (regex_match r s g)"
| "regex_match (Cat a b) s g =
     concat (map (\<lambda>(s', g'). regex_match b s' g') (regex_match a s g))"
| "regex_match (Alt a b) s g = regex_match a s g @ regex_match b s g"

fun ngroups :: "regex \<Rightarrow> nat" where
  "ngroups (Lit w) = 0"
| "ngroups (Many1 cs) = 0"
| "ngroups (Grp i r) = max i (ngroups r)"
| "ngroups (Cat a b) = max (ngroups a) (ngroups b)"
| "ngroups (Alt a b) = max (ngroups a) (ngroups b)"

definition match_at :: "regex \<Rightarrow> string \<Rightarrow> (string \<times> groups) option" where
  \<comment> \<open>the match the engine reports at the head of the text: the first that succeeds\<close>
  "match_at r s = (case regex_match r s Map.empty of [] \<Rightarrow> None | x # _ \<Rightarrow> Some x)"

record match =
  m_start :: nat
  m_end :: nat
  m_groups :: groups
  m_ngroups :: nat

function finditer_from :: "regex \<Rightarrow> nat \<Rightarrow> string \<Rightarrow> match list" where
  \<comment> \<open>the matches of \<open>re.finditer\<close> in the text from offset \<open>pos\<close> on, \<open>s\<close> being the text
      from there: leftmost first, each search resuming where the last match ended.
      No pattern of the table matches the empty string; an empty match would be
      reported and the scan moved on by one character.\<close>
  "finditer_from r pos s =
     (case match_at r s of
        None \<Rightarrow> (case s of [] \<Rightarrow> [] | _ # t \<Rightarrow> finditer_from r (Suc pos) t)
      | Some (rest, g) \<Rightarrow>
          (if length rest < length s
           then \<lparr>m_start = pos, m_end = pos + (length s - length rest),
                 m_groups = g, m_ngroups = ngroups r\<rparr>
                # finditer_from r (pos + (length s - length rest)) rest
           else \<lparr>m_start = pos, m_end = pos, m_groups = g, m_ngroups = ngroups r\<rparr>
                # (case s of [] \<Rightarrow> [] | _ # t \<Rightarrow> finditer_from r (Suc pos) t)))"
  by pat_completeness auto
termination
  by (relation "measure (\<lambda>(r, pos, s). length s)") auto

declare finditer_from.simps [simp del]

definition finditer :: "regex \<Rightarrow> string \<Rightarrow> match list" where
  \<comment> \<open>\<open>re.finditer(pattern, text, re.MULTILINE)\<close>; the flag changes \<open>^\<close> and \<open>$\<close> only,
      which no pattern uses\<close>
  "finditer r text = finditer_from r 0 text"

definition search :: "regex \<Rightarrow> string \<Rightarrow> match option" where
  \<comment> \<open>\<open>re.search\<close>: the leftmost match\<close>
  "search r text = (case finditer r text of [] \<Rightarrow> None | m # _ \<Rightarrow> Some m)"

definition group :: "match \<Rightarrow> nat \<Rightarrow> error + pyval" where
  \<comment> \<open>\<open>match.group(i)\<close>: None for a group that took no part, IndexError for a group
      the pattern does not have\<close>
  "group m i =
     (if i \<le> m_ngroups m
      then Inr (case m_groups m i of None \<Rightarrow> PyNone | Some s \<Rightarrow> PyStr s)
      else Inl IndexError)"

definition group_or :: "match \<Rightarrow> nat \<Rightarrow> nat \<Rightarrow> error + pyval" where
  \<comment> \<open>\<open>match.group(i) if match.group(i) else match.group(j)\<close>\<close>
  "group_or m i j =
     (case group m i of
        Inl e \<Rightarrow> Inl e
      | Inr v \<Rightarrow> (if truthy v then group m i else group m j))"

section \<open>The command table of process_conversation.py\<close>

definition target_arg :: "nat \<Rightarrow> nat \<Rightarrow> regex" where
  \<comment> \<open>\<open>(?:"([^"]+)"|([^\s"]+))\<close> with groups \<open>i\<close> and \<open>j\<close>\<close>
  "target_arg i j =
     Alt (Cat (Lit [dquote]) (Cat (Grp i (Many1 (NoneOf [Ch dquote]))) (Lit [dquote])))
         (Grp j (Many1 (NoneOf [WS, Ch dquote])))"

definition spaces :: regex where
  \<comment> \<open>\<open>\s+\<close>\<close>
  "spaces = Many1 (OneOf [WS])"

definition target_pattern :: "string \<Rightarrow> regex" where
  \<comment> \<open>\<open>/keyword\s+(?:"([^"]+)"|([^\s"]+))\<close>\<close>
  "target_pattern kw = Cat (Lit kw) (Cat spaces (target_arg 1 2))"

definition add_pattern :: regex where
  \<comment> \<open>\<open>/add\s+(?:"([^"]+)"|([^\s"]+))\s+to\s+(?:"([^"]+)"|([^\s"]+))\<close>\<close>
  "add_pattern =
     Cat (Lit ''/add'') (Cat spaces (Cat (target_arg 1 2)
       (Cat spaces (Cat (Lit ''to'') (Cat spaces (target_arg 3 4))))))"

definition implement_pattern :: regex where
  \<comment> \<open>\<open>/implement\s+(?:all|([0-9,\s]+))\<close>\<close>
  "implement_pattern =
     Cat (Lit ''/implement'') (Cat spaces
       (Alt (Lit ''all'') (Grp 1 (Many1 (OneOf [Rng CHR ''0'' CHR ''9'', Ch CHR '','', WS])))))"

definition help_pattern :: regex where
  \<comment> \<open>\<open>/help\<close>\<close>
  "help_pattern = Lit ''/help''"

definition COMMAND_PATTERNS :: "(string \<times> regex) list" where
  \<comment> \<open>the dictionary, in its insertion order, which is the order of iteration\<close>
  "COMMAND_PATTERNS =
     [(''fix'', target_pattern ''/fix''),
      (''improve'', target_pattern ''/improve''),
      (''document'', target_pattern ''/document''),
      (''add'', add_pattern),
      (''analyze'', target_pattern ''/analyze''),
      (''explain'', target_pattern ''/explain''),
      (''implement'', implement_pattern),
      (''refactor'', target_pattern ''/refactor''),
      (''test'', target_pattern ''/test''),
      (''help'', help_pattern)]"

datatype cmd_args =
    Target pyval
  | AddArgs pyval pyval
  | Indices "int list"
  | AllSuggestions

type_synonym command = "string \<times> cmd_args"

definition parse_indices :: "string \<Rightarrow> error + int list" where
  \<comment> \<open>\<open>[int(idx.strip()) for idx in s.split(',') if idx.strip().isdigit()]\<close>\<close>
  "parse_indices s =
     map_err (\<lambda>idx. py_int (strip idx))
       (filter (\<lambda>idx. isdigit (strip idx)) (split_on CHR '','' s))"

definition command_of :: "string \<Rightarrow> match \<Rightarrow> error + command" where
  \<comment> \<open>the body of the inner loop of \<open>detect_commands\<close>: the command one match appends\<close>
  "command_of cmd_type m =
     (if cmd_type \<in> set [''add'', ''implement'']
      then (if cmd_type = ''add''
            then (case group_or m 1 2 of
                    Inl e \<Rightarrow> Inl e
                  | Inr target1 \<Rightarrow>
                      (case group_or m 3 4 of
                         Inl e \<Rightarrow> Inl e
                       | Inr target2 \<Rightarrow> Inr (cmd_type, AddArgs target1 target2)))
            else (case group m 1 of
                    Inl e \<Rightarrow> Inl e
                  | Inr v \<Rightarrow>
                      (if truthy v
                       then (case group m 1 of
                               Inl e \<Rightarrow> Inl e
                             | Inr w \<Rightarrow>
                                 (case w of
                                    PyNone \<Rightarrow> Inl AttributeError
                                  | PyStr s \<Rightarrow>
                                      (case parse_indices s of
                                         Inl e \<Rightarrow> Inl e
                                       | Inr indices \<Rightarrow> Inr (cmd_type, Indices indices))))
                       else Inr (cmd_type, AllSuggestions))))
      else (case group_or m 1 2 of
              Inl e \<Rightarrow> Inl e
            | Inr target \<Rightarrow> Inr (cmd_type, Target target)))"

fun detect_loop :: "(string \<times> regex) list \<Rightarrow> string \<Rightarrow> error + command list" where
  \<comment> \<open>the outer loop over the patterns; an exception ends the whole call\<close>
  "detect_loop [] text = Inr []"
| "detect_loop ((cmd_type, pattern) # ps) text =
     (case map_err (command_of cmd_type) (finditer pattern text) of
        Inl e \<Rightarrow> Inl e
      | Inr cs \<Rightarrow>
          (case detect_loop ps text of Inl e \<Rightarrow> Inl e | Inr ds \<Rightarrow> Inr (cs @ ds)))"

definition detect_commands :: "string \<Rightarrow> error + command list" where
  "detect_commands text = detect_loop COMMAND_PATTERNS text"

section \<open>The command extraction of process_comment_command.py\<close>

definition FIX_PATTERN :: regex where
  "FIX_PATTERN = target_pattern ''/fix''"

definition IMPROVE_PATTERN :: regex where
  "IMPROVE_PATTERN = target_pattern ''/improve''"

definition DOCUMENT_PATTERN :: regex where
  "DOCUMENT_PATTERN = target_pattern ''/document''"

definition ADD_PATTERN :: regex where
  "ADD_PATTERN = add_pattern"

definition EXPLAIN_PATTERN :: regex where
  "EXPLAIN_PATTERN = target_pattern ''/explain''"

definition HELP_PATTERN :: regex where
  "HELP_PATTERN = Lit ''/help''"

definition target_command :: "string \<Rightarrow> match \<Rightarrow> error + command" where
  \<comment> \<open>\<open>target = match.group(1) if match.group(1) else match.group(2)\<close>, then the append\<close>
  "target_command cmd_type m =
     (case group_or m 1 2 of
        Inl e \<Rightarrow> Inl e
      | Inr target \<Rightarrow> Inr (cmd_type, Target target))"

definition add_command :: "match \<Rightarrow> error + command" where
  "add_command m =
     (case group_or m 1 2 of
        Inl e \<Rightarrow> Inl e
      | Inr feature \<Rightarrow>
          (case group_or m 3 4 of
             Inl e \<Rightarrow> Inl e
           | Inr target \<Rightarrow> Inr (''add'', AddArgs feature target)))"

definition then_extend :: "error + 'a list \<Rightarrow> error + 'a list \<Rightarrow> error + 'a list" where
  \<comment> \<open>one loop after another on the same list; the first exception ends the call\<close>
  "then_extend a b =
     (case a of
        Inl e \<Rightarrow> Inl e
      | Inr xs \<Rightarrow> (case b of Inl e \<Rightarrow> Inl e | Inr ys \<Rightarrow> Inr (xs @ ys)))"

definition extract_commands :: "string \<Rightarrow> error + command list" where
  \<comment> \<open>\<open>CommandProcessor._extract_commands\<close>, the comment body as argument\<close>
  "extract_commands comment_body =
     then_extend (map_err (target_command ''fix'') (finditer FIX_PATTERN comment_body))
    (then_extend (map_err (target_command ''improve'') (finditer IMPROVE_PATTERN comment_body))
    (then_extend (map_err (target_command ''document'') (finditer DOCUMENT_PATTERN comment_body))
    (then_extend (map_err add_command (finditer ADD_PATTERN comment_body))
    (then_extend (map_err (target_command ''explain'') (finditer EXPLAIN_PATTERN comment_body))
      (Inr (case search HELP_PATTERN comment_body of
              None \<Rightarrow> []
            | Some m \<Rightarrow> [(''help'', Target PyNone)]))))))"

section \<open>The commands in the vocabulary of the specification\<close>

abbreviation Fix :: "string \<Rightarrow> command" where
  "Fix t \<equiv> (''fix'', Target (PyStr t))"

abbreviation Improve :: "string \<Rightarrow> command" where
  "Improve t \<equiv> (''improve'', Target (PyStr t))"

abbreviation Document :: "string \<Rightarrow> command" where
  "Document t \<equiv> (''document'', Target (PyStr t))"

abbreviation Add :: "string \<Rightarrow> string \<Rightarrow> command" where
  "Add f t \<equiv> (''add'', AddArgs (PyStr f) (PyStr t))"

abbreviation Implement_All :: command where
  "Implement_All \<equiv> (''implement'', AllSuggestions)"

abbreviation Implement_Indices :: "int list \<Rightarrow> command" where
  "Implement_Indices ns \<equiv> (''implement'', Indices ns)"

abbreviation Help :: command where
  "Help \<equiv> (''help'', Target PyNone)"

section \<open>Notions used in the statements\<close>

definition kind_rank :: "string \<Rightarrow> nat" where
  \<comment> \<open>the position of a command type among the keys of the table\<close>
  "kind_rank k = length (takeWhile (\<lambda>kp. fst kp \<noteq> k) COMMAND_PATTERNS)"


section \<open>Generated command strings\<close>

text \<open>
  The round-trip property of the specification speaks of command strings built from the
  grammar table: a keyword and an argument of a valid shape, a target or feature being a
  bare token or a double-quoted string and the selection of implement being \<open>all\<close> or
  a list of positive integers separated by commas. These are the strings and the commands
  they are built from.
\<close>

datatype arg_shape = Bare string | Quoted string

fun arg_text :: "arg_shape \<Rightarrow> string" where
  "arg_text (Bare t) = t"
| "arg_text (Quoted t) = t"

fun render_arg :: "arg_shape \<Rightarrow> string" where
  "render_arg (Bare t) = t"
| "render_arg (Quoted t) = dquote # t @ [dquote]"

fun valid_arg :: "arg_shape \<Rightarrow> bool" where
  "valid_arg (Bare t) = (t \<noteq> [] \<and> list_all (\<lambda>c. \<not> isspace c \<and> c \<noteq> dquote) t)"
| "valid_arg (Quoted t) = (t \<noteq> [] \<and> list_all (\<lambda>c. c \<noteq> dquote) t)"





definition target_keywords :: "string list" where
  "target_keywords =
     [''fix'', ''improve'', ''document'', ''analyze'', ''explain'', ''refactor'', ''test'']"







section \<open>Facts about the matcher and the loops\<close>


subsection \<open>The loops and the matcher\<close>

lemma map_err_Inr: "map_err f xs = Inr ys \<Longrightarrow> list_all2 (\<lambda>x y. f x = Inr y) xs ys"
  by (induction xs arbitrary: ys) (auto split: sum.splits)

lemma map_err_Inr_intro: "list_all2 (\<lambda>x y. f x = Inr y) xs ys \<Longrightarrow> map_err f xs = Inr ys"
  by (induction xs arbitrary: ys) (auto simp: list_all2_Cons1)

lemma greedy_elem: "r \<in> set (greedy P s) \<Longrightarrow> \<exists>t. t \<noteq> [] \<and> list_all P t \<and> s = t @ r"
proof (induction s)
  case Nil
  then show ?case by simp
next
  case (Cons c s)
  then have Pc: "P c" by (auto split: if_splits)
  from Cons.prems Pc have "r \<in> set (greedy P s) \<or> r = s" by auto
  then show ?case
  proof
    assume "r \<in> set (greedy P s)"
    then obtain t where "t \<noteq> []" "list_all P t" "s = t @ r" using Cons.IH by blast
    then have "c # t \<noteq> [] \<and> list_all P (c # t) \<and> c # s = (c # t) @ r" using Pc by simp
    then show ?thesis by blast
  next
    assume "r = s"
    then have "[c] \<noteq> [] \<and> list_all P [c] \<and> c # s = [c] @ r" using Pc by simp
    then show ?thesis by blast
  qed
qed


lemma greedy_Nil_iff: "greedy P s = [] \<longleftrightarrow> (s = [] \<or> \<not> P (hd s))"
  by (cases s) auto

lemma regex_match_suffix:
  "(s', g') \<in> set (regex_match r s g) \<Longrightarrow> \<exists>t. s = t @ s'"
proof (induction r arbitrary: s g s' g')
  case (Lit w)
  then show ?case
  proof (induction w s rule: strip_prefix.induct)
    case (1 s) then show ?case by simp
  next
    case (2 c w) then show ?case by simp
  next
    case (3 c w x s)
    then show ?case by (auto split: if_splits option.splits)
  qed
next
  case (Many1 cs)
  then have "s' \<in> set (greedy (cset_matches cs) s)" by auto
  from greedy_elem [OF this] show ?case by blast
next
  case (Grp i r)
  then show ?case by auto
next
  case (Cat a b)
  then obtain s1 g1 where "(s1, g1) \<in> set (regex_match a s g)" "(s', g') \<in> set (regex_match b s1 g1)"
    by auto
  then show ?case using Cat.IH by (metis append.assoc)
next
  case (Alt a b)
  then show ?case by auto
qed

lemma match_at_Some_mem: "match_at r s = Some x \<Longrightarrow> x \<in> set (regex_match r s Map.empty)"
  by (auto simp: match_at_def split: list.splits)

lemma finditer_from_Nil_None: "match_at r [] = None \<Longrightarrow> finditer_from r pos [] = []"
  by (subst finditer_from.simps) simp

lemma finditer_from_Cons_None:
  "match_at r (c # t) = None \<Longrightarrow> finditer_from r pos (c # t) = finditer_from r (Suc pos) t"
  by (subst finditer_from.simps) simp

lemma finditer_from_Some:
  "match_at r s = Some (rest, g) \<Longrightarrow> length rest < length s \<Longrightarrow>
     finditer_from r pos s =
       \<lparr>m_start = pos, m_end = pos + (length s - length rest),
         m_groups = g, m_ngroups = ngroups r\<rparr>
       # finditer_from r (pos + (length s - length rest)) rest"
  by (subst finditer_from.simps) simp

lemma finditer_from_Some_Nil:
  "match_at r [] = Some (rest, g) \<Longrightarrow>
     finditer_from r pos [] = [\<lparr>m_start = pos, m_end = pos, m_groups = g, m_ngroups = ngroups r\<rparr>]"
  by (subst finditer_from.simps) simp

lemma finditer_from_Some_Cons:
  "match_at r (c # t) = Some (rest, g) \<Longrightarrow> \<not> length rest < length (c # t) \<Longrightarrow>
     finditer_from r pos (c # t) =
       \<lparr>m_start = pos, m_end = pos, m_groups = g, m_ngroups = ngroups r\<rparr>
       # finditer_from r (Suc pos) t"
  by (subst finditer_from.simps) simp

lemma finditer_from_elem:
  "m \<in> set (finditer_from r pos s) \<Longrightarrow>
     \<exists>pre s0 rest. s = pre @ s0 \<and> match_at r s0 = Some (rest, m_groups m)
        \<and> m_ngroups m = ngroups r \<and> m_start m = pos + length pre"
proof (induction r pos s rule: finditer_from.induct)
  case (1 r pos s)
  show ?case
  proof (cases "match_at r s")
    case None
    show ?thesis
    proof (cases s)
      case Nil
      then show ?thesis using "1.prems" None by (simp add: finditer_from_Nil_None)
    next
      case (Cons c t)
      then have "m \<in> set (finditer_from r (Suc pos) t)"
        using "1.prems" None by (simp add: finditer_from_Cons_None)
      from "1.IH"(1) [OF None Cons this] obtain pre s0 rest where
        "t = pre @ s0" "match_at r s0 = Some (rest, m_groups m)"
        "m_ngroups m = ngroups r" "m_start m = Suc pos + length pre" by blast
      then have "s = (c # pre) @ s0 \<and> match_at r s0 = Some (rest, m_groups m)
         \<and> m_ngroups m = ngroups r \<and> m_start m = pos + length (c # pre)" using Cons by simp
      then show ?thesis by blast
    qed
  next
    case (Some x)
    obtain rest g where x: "x = (rest, g)" by (cases x)
    have ma: "match_at r s = Some (rest, g)" using Some x by simp
    from ma match_at_Some_mem regex_match_suffix obtain t where t: "s = t @ rest"
      by blast
    show ?thesis
    proof (cases "length rest < length s")
      case True
      let ?m0 = "\<lparr>m_start = pos, m_end = pos + (length s - length rest),
                 m_groups = g, m_ngroups = ngroups r\<rparr>"
      from "1.prems" finditer_from_Some [OF ma True, of pos]
      have "m = ?m0 \<or> m \<in> set (finditer_from r (pos + (length s - length rest)) rest)"
        by simp
      then show ?thesis
      proof
        assume "m = ?m0"
        then have "s = [] @ s \<and> match_at r s = Some (rest, m_groups m)
           \<and> m_ngroups m = ngroups r \<and> m_start m = pos + length ([]::string)" using ma by simp
        then show ?thesis by blast
      next
        assume "m \<in> set (finditer_from r (pos + (length s - length rest)) rest)"
        from "1.IH"(2) [OF Some x [symmetric] True this] obtain pre s0 rest' where
          "rest = pre @ s0" "match_at r s0 = Some (rest', m_groups m)"
          "m_ngroups m = ngroups r" "m_start m = pos + (length s - length rest) + length pre" by blast
        then have "s = (t @ pre) @ s0 \<and> match_at r s0 = Some (rest', m_groups m)
           \<and> m_ngroups m = ngroups r \<and> m_start m = pos + length (t @ pre)" using t by simp
        then show ?thesis by blast
      qed
    next
      case False
      let ?m0 = "\<lparr>m_start = pos, m_end = pos, m_groups = g, m_ngroups = ngroups r\<rparr>"
      show ?thesis
      proof (cases s)
        case Nil
        from ma Nil have "match_at r [] = Some (rest, g)" by simp
        from finditer_from_Some_Nil [OF this, of pos] "1.prems" Nil have "m = ?m0" by simp
        then have "s = [] @ s \<and> match_at r s = Some (rest, m_groups m)
           \<and> m_ngroups m = ngroups r \<and> m_start m = pos + length ([]::string)" using ma by simp
        then show ?thesis by blast
      next
        case (Cons c u)
        from ma Cons have mc: "match_at r (c # u) = Some (rest, g)" by simp
        from False Cons have nl: "\<not> length rest < length (c # u)" by simp
        from finditer_from_Some_Cons [OF mc nl, of pos] "1.prems" Cons
        have "m = ?m0 \<or> m \<in> set (finditer_from r (Suc pos) u)" by simp
        then show ?thesis
        proof
          assume "m = ?m0"
          then have "s = [] @ s \<and> match_at r s = Some (rest, m_groups m)
             \<and> m_ngroups m = ngroups r \<and> m_start m = pos + length ([]::string)" using ma by simp
          then show ?thesis by blast
        next
          assume "m \<in> set (finditer_from r (Suc pos) u)"
          from "1.IH"(3) [OF Some x [symmetric] False Cons this] obtain pre s0 rest' where
            "u = pre @ s0" "match_at r s0 = Some (rest', m_groups m)"
            "m_ngroups m = ngroups r" "m_start m = Suc pos + length pre" by blast
          then have "s = (c # pre) @ s0 \<and> match_at r s0 = Some (rest', m_groups m)
             \<and> m_ngroups m = ngroups r \<and> m_start m = pos + length (c # pre)" using Cons by simp
          then show ?thesis by blast
        qed
      qed
    qed
  qed
qed

lemma finditer_from_starts:
  "sorted_wrt (<) (map m_start (finditer_from r pos s))
   \<and> (\<forall>m\<in>set (finditer_from r pos s). pos \<le> m_start m)"
proof (induction r pos s rule: finditer_from.induct)
  case (1 r pos s)
  show ?case
  proof (cases "match_at r s")
    case None
    show ?thesis
    proof (cases s)
      case Nil
      then show ?thesis using None by (simp add: finditer_from_Nil_None)
    next
      case (Cons c t)
      from "1.IH"(1) [OF None Cons] have
        "sorted_wrt (<) (map m_start (finditer_from r (Suc pos) t))"
        "\<forall>m\<in>set (finditer_from r (Suc pos) t). Suc pos \<le> m_start m" by simp_all
      moreover have "finditer_from r pos s = finditer_from r (Suc pos) t"
        using None Cons by (simp add: finditer_from_Cons_None)
      ultimately show ?thesis by fastforce
    qed
  next
    case (Some x)
    obtain rest g where x: "x = (rest, g)" by (cases x)
    have ma: "match_at r s = Some (rest, g)" using Some x by simp
    show ?thesis
    proof (cases "length rest < length s")
      case True
      let ?m0 = "\<lparr>m_start = pos, m_end = pos + (length s - length rest),
                 m_groups = g, m_ngroups = ngroups r\<rparr>"
      let ?tl = "finditer_from r (pos + (length s - length rest)) rest"
      from "1.IH"(2) [OF Some x [symmetric] True] have
        ih: "sorted_wrt (<) (map m_start ?tl)"
        "\<forall>m\<in>set ?tl. pos + (length s - length rest) \<le> m_start m" by simp_all
      have eq: "finditer_from r pos s = ?m0 # ?tl" by (rule finditer_from_Some [OF ma True])
      have "\<forall>m\<in>set ?tl. pos < m_start m" using ih(2) True by fastforce
      then show ?thesis unfolding eq using ih(1) by (simp add: less_imp_le)
    next
      case False
      let ?m0 = "\<lparr>m_start = pos, m_end = pos, m_groups = g, m_ngroups = ngroups r\<rparr>"
      show ?thesis
      proof (cases s)
        case Nil
        from ma Nil have "match_at r [] = Some (rest, g)" by simp
        from finditer_from_Some_Nil [OF this, of pos] Nil show ?thesis by simp
      next
        case (Cons c u)
        let ?tl = "finditer_from r (Suc pos) u"
        from ma Cons have mc: "match_at r (c # u) = Some (rest, g)" by simp
        from False Cons have nl: "\<not> length rest < length (c # u)" by simp
        from "1.IH"(3) [OF Some x [symmetric] False Cons] have
          ih: "sorted_wrt (<) (map m_start ?tl)" "\<forall>m\<in>set ?tl. Suc pos \<le> m_start m" by simp_all
        have eq: "finditer_from r pos s = ?m0 # ?tl"
          using finditer_from_Some_Cons [OF mc nl, of pos] Cons by simp
        have "\<forall>m\<in>set ?tl. pos < m_start m" using ih(2) by fastforce
        then show ?thesis unfolding eq using ih(1) by (simp add: less_imp_le)
      qed
    qed
  qed
qed

lemma finditer_starts_increasing: "sorted_wrt (<) (map m_start (finditer r text))"
  using finditer_from_starts [of r 0 "text"] by (simp add: finditer_def)

lemma list_all2_rightD:
  "list_all2 P xs ys \<Longrightarrow> y \<in> set ys \<Longrightarrow> \<exists>x\<in>set xs. P x y"
  by (induction rule: list_all2_induct) auto

lemma finditer_elem:
  "m \<in> set (finditer r text) \<Longrightarrow>
     \<exists>pre s0 rest. text = pre @ s0 \<and> match_at r s0 = Some (rest, m_groups m)
        \<and> m_ngroups m = ngroups r \<and> m_start m = length pre"
  using finditer_from_elem [of m r 0 "text"] by (simp add: finditer_def)

lemma detect_loop_elem:
  "detect_loop ps text = Inr cmds \<Longrightarrow> c \<in> set cmds \<Longrightarrow>
     \<exists>k p m. (k, p) \<in> set ps \<and> m \<in> set (finditer p text) \<and> command_of k m = Inr c"
proof (induction ps arbitrary: cmds)
  case Nil
  then show ?case by simp
next
  case (Cons kp ps)
  obtain k p where kp: "kp = (k, p)" by (cases kp)
  from Cons.prems(1) kp obtain cs ds where
    cs: "map_err (command_of k) (finditer p text) = Inr cs" and
    ds: "detect_loop ps text = Inr ds" and cmds: "cmds = cs @ ds"
    by (auto split: sum.splits)
  from Cons.prems(2) cmds have "c \<in> set cs \<or> c \<in> set ds" by simp
  then show ?case
  proof
    assume "c \<in> set cs"
    with list_all2_rightD [OF map_err_Inr [OF cs]]
    obtain m where "m \<in> set (finditer p text)" "command_of k m = Inr c"
      by blast
    then show ?thesis using kp by auto
  next
    assume "c \<in> set ds"
    from Cons.IH [OF ds this] show ?thesis by auto
  qed
qed

subsection \<open>Index lists\<close>

lemma foldl_digits_nonneg:
  "0 \<le> a \<Longrightarrow> list_all is_decimal s \<Longrightarrow>
     0 \<le> foldl (\<lambda>a c. 10 * a + (int (of_char c) - 48)) a s"
  by (induction s arbitrary: a) (auto simp: is_decimal_def)

lemma py_int_nonneg: "py_int s = Inr n \<Longrightarrow> 0 \<le> n"
  using foldl_digits_nonneg [of 0 s] by (auto simp: py_int_def split: if_splits)

lemma parse_indices_nonneg: "parse_indices s = Inr ns \<Longrightarrow> n \<in> set ns \<Longrightarrow> 0 \<le> n"
proof -
  assume a: "parse_indices s = Inr ns" and n: "n \<in> set ns"
  from a have "list_all2 (\<lambda>idx y. py_int (strip idx) = Inr y)
      (filter (\<lambda>idx. isdigit (strip idx)) (split_on CHR '','' s)) ns"
    unfolding parse_indices_def by (rule map_err_Inr)
  from list_all2_rightD [OF this n] obtain idx where "py_int (strip idx) = Inr n"
    by blast
  then show ?thesis by (rule py_int_nonneg)
qed

lemma command_of_indices:
  "command_of k m = Inr (k', Indices ns) \<Longrightarrow>
     \<exists>s. m_groups m 1 = Some s \<and> parse_indices s = Inr ns"
  by (auto simp: command_of_def group_or_def group_def
           split: if_splits sum.splits pyval.splits option.splits)

subsection \<open>What a match of each pattern captures\<close>

lemma strip_prefix_Some_iff: "strip_prefix w s = Some r \<longleftrightarrow> s = w @ r"
  by (induction w s rule: strip_prefix.induct) auto

lemma strip_prefix_None_iff: "strip_prefix w s = None \<longleftrightarrow> take (length w) s \<noteq> w"
  by (induction w s rule: strip_prefix.induct) auto

lemma in_Lit: "(s', g') \<in> set (regex_match (Lit w) s g) \<longleftrightarrow> s = w @ s' \<and> g' = g"
proof (cases "strip_prefix w s")
  case None
  then have "s \<noteq> w @ s'" using strip_prefix_Some_iff [of w s s'] by simp
  then show ?thesis using None by simp
next
  case (Some r)
  then have "s = w @ r" by (simp add: strip_prefix_Some_iff)
  then show ?thesis using Some by auto
qed

lemma in_Many1:
  "(s', g') \<in> set (regex_match (Many1 cs) s g) \<Longrightarrow>
     \<exists>t. t \<noteq> [] \<and> list_all (cset_matches cs) t \<and> s = t @ s' \<and> g' = g"
proof -
  assume "(s', g') \<in> set (regex_match (Many1 cs) s g)"
  then have "s' \<in> set (greedy (cset_matches cs) s)" and "g' = g" by auto
  with greedy_elem [of s' "cset_matches cs" s] show ?thesis by blast
qed

lemma in_Grp_Many1:
  "(s', g') \<in> set (regex_match (Grp i (Many1 cs)) s g) \<Longrightarrow>
     \<exists>t. t \<noteq> [] \<and> list_all (cset_matches cs) t \<and> s = t @ s' \<and> g' = g(i \<mapsto> t)"
proof -
  assume "(s', g') \<in> set (regex_match (Grp i (Many1 cs)) s g)"
  then obtain g1 where m: "(s', g1) \<in> set (regex_match (Many1 cs) s g)"
    and g': "g' = g1(i \<mapsto> take (length s - length s') s)" by auto
  from in_Many1 [OF m] obtain t where "t \<noteq> []" "list_all (cset_matches cs) t" "s = t @ s'" "g1 = g"
    by blast
  with g' show ?thesis by auto
qed

lemma in_Cat:
  "(s', g') \<in> set (regex_match (Cat a b) s g) \<longleftrightarrow>
     (\<exists>s1 g1. (s1, g1) \<in> set (regex_match a s g) \<and> (s', g') \<in> set (regex_match b s1 g1))"
  by auto

lemma in_Alt:
  "(s', g') \<in> set (regex_match (Alt a b) s g) \<longleftrightarrow>
     (s', g') \<in> set (regex_match a s g) \<or> (s', g') \<in> set (regex_match b s g)"
  by auto

lemma in_quoted:
  assumes "(s', g') \<in> set (regex_match (Cat (Lit [dquote])
        (Cat (Grp i (Many1 (NoneOf [Ch dquote]))) (Lit [dquote]))) s g)"
  shows "\<exists>t. t \<noteq> [] \<and> list_all (cset_matches (NoneOf [Ch dquote])) t
            \<and> s = dquote # t @ dquote # s' \<and> g' = g(i \<mapsto> t)"
proof -
  from assms obtain s1 g1 where
    a: "(s1, g1) \<in> set (regex_match (Lit [dquote]) s g)" and
    b: "(s', g') \<in> set (regex_match (Cat (Grp i (Many1 (NoneOf [Ch dquote]))) (Lit [dquote])) s1 g1)"
    unfolding in_Cat by blast
  from b obtain s2 g2 where
    c: "(s2, g2) \<in> set (regex_match (Grp i (Many1 (NoneOf [Ch dquote]))) s1 g1)" and
    d: "(s', g') \<in> set (regex_match (Lit [dquote]) s2 g2)"
    unfolding in_Cat by blast
  from a have a': "s = [dquote] @ s1" "g1 = g" unfolding in_Lit by simp_all
  from d have d': "s2 = [dquote] @ s'" "g' = g2" unfolding in_Lit by simp_all
  from in_Grp_Many1 [OF c] obtain t where
    t: "t \<noteq> []" "list_all (cset_matches (NoneOf [Ch dquote])) t" "s1 = t @ s2" "g2 = g1(i \<mapsto> t)"
    by blast
  have "s = dquote # t @ dquote # s'" using a' d' t by simp
  moreover have "g' = g(i \<mapsto> t)" using a' d' t by simp
  ultimately show ?thesis using t(1,2) by blast
qed

lemma in_target_arg:
  assumes "(s', g') \<in> set (regex_match (target_arg i j) s g)"
  shows "(\<exists>t. t \<noteq> [] \<and> g' = g(i \<mapsto> t)) \<or> (\<exists>t. t \<noteq> [] \<and> g' = g(j \<mapsto> t))"
proof -
  from assms have
    "(s', g') \<in> set (regex_match (Cat (Lit [dquote])
        (Cat (Grp i (Many1 (NoneOf [Ch dquote]))) (Lit [dquote]))) s g)
     \<or> (s', g') \<in> set (regex_match (Grp j (Many1 (NoneOf [WS, Ch dquote]))) s g)"
    unfolding target_arg_def in_Alt .
  then show ?thesis
  proof
    assume "(s', g') \<in> set (regex_match (Cat (Lit [dquote])
        (Cat (Grp i (Many1 (NoneOf [Ch dquote]))) (Lit [dquote]))) s g)"
    from in_quoted [OF this] show ?thesis by blast
  next
    assume "(s', g') \<in> set (regex_match (Grp j (Many1 (NoneOf [WS, Ch dquote]))) s g)"
    from in_Grp_Many1 [OF this] show ?thesis by blast
  qed
qed

lemma in_spaces: "(s', g') \<in> set (regex_match spaces s g) \<Longrightarrow> g' = g"
  unfolding spaces_def by (drule in_Many1) blast

lemma in_target_pattern:
  assumes "(s', g') \<in> set (regex_match (target_pattern kw) s Map.empty)"
  shows "(\<exists>t. t \<noteq> [] \<and> g' 1 = Some t) \<or> (g' 1 = None \<and> (\<exists>t. t \<noteq> [] \<and> g' 2 = Some t))"
proof -
  from assms obtain s1 g1 where
    a: "(s1, g1) \<in> set (regex_match (Lit kw) s Map.empty)" and
    b: "(s', g') \<in> set (regex_match (Cat spaces (target_arg 1 2)) s1 g1)"
    unfolding target_pattern_def in_Cat by blast
  from b obtain s2 g2 where
    c: "(s2, g2) \<in> set (regex_match spaces s1 g1)" and
    d: "(s', g') \<in> set (regex_match (target_arg 1 2) s2 g2)"
    unfolding in_Cat by blast
  from a have "g1 = Map.empty" unfolding in_Lit by simp
  with in_spaces [OF c] have "g2 = Map.empty" by simp
  with in_target_arg [OF d] show ?thesis by auto
qed

lemma in_add_pattern:
  assumes "(s', g') \<in> set (regex_match add_pattern s Map.empty)"
  shows "((\<exists>t. t \<noteq> [] \<and> g' 1 = Some t) \<or> (g' 1 = None \<and> (\<exists>t. t \<noteq> [] \<and> g' 2 = Some t)))
       \<and> ((\<exists>t. t \<noteq> [] \<and> g' 3 = Some t) \<or> (g' 3 = None \<and> (\<exists>t. t \<noteq> [] \<and> g' 4 = Some t)))"
proof -
  from assms obtain s1 g1 where
    a1: "(s1, g1) \<in> set (regex_match (Lit ''/add'') s Map.empty)" and
    r1: "(s', g') \<in> set (regex_match (Cat spaces (Cat (target_arg 1 2)
       (Cat spaces (Cat (Lit ''to'') (Cat spaces (target_arg 3 4)))))) s1 g1)"
    unfolding add_pattern_def in_Cat by blast
  from r1 obtain s2 g2 where
    a2: "(s2, g2) \<in> set (regex_match spaces s1 g1)" and
    r2: "(s', g') \<in> set (regex_match (Cat (target_arg 1 2)
       (Cat spaces (Cat (Lit ''to'') (Cat spaces (target_arg 3 4))))) s2 g2)"
    unfolding in_Cat by blast
  from r2 obtain s3 g3 where
    a3: "(s3, g3) \<in> set (regex_match (target_arg 1 2) s2 g2)" and
    r3: "(s', g') \<in> set (regex_match
       (Cat spaces (Cat (Lit ''to'') (Cat spaces (target_arg 3 4)))) s3 g3)"
    unfolding in_Cat by blast
  from r3 obtain s4 g4 where
    a4: "(s4, g4) \<in> set (regex_match spaces s3 g3)" and
    r4: "(s', g') \<in> set (regex_match (Cat (Lit ''to'') (Cat spaces (target_arg 3 4))) s4 g4)"
    unfolding in_Cat by blast
  from r4 obtain s5 g5 where
    a5: "(s5, g5) \<in> set (regex_match (Lit ''to'') s4 g4)" and
    r5: "(s', g') \<in> set (regex_match (Cat spaces (target_arg 3 4)) s5 g5)"
    unfolding in_Cat by blast
  from r5 obtain s6 g6 where
    a6: "(s6, g6) \<in> set (regex_match spaces s5 g5)" and
    a7: "(s', g') \<in> set (regex_match (target_arg 3 4) s6 g6)"
    unfolding in_Cat by blast
  from a1 have "g1 = Map.empty" unfolding in_Lit by simp
  with in_spaces [OF a2] have g2: "g2 = Map.empty" by simp
  from a5 have "g5 = g4" unfolding in_Lit by simp
  with in_spaces [OF a4] in_spaces [OF a6] have g6: "g6 = g3" by simp
  from in_target_arg [OF a3] g2 have
    "(\<exists>t. t \<noteq> [] \<and> g3 = Map.empty(1 \<mapsto> t)) \<or> (\<exists>t. t \<noteq> [] \<and> g3 = Map.empty(2 \<mapsto> t))" by simp
  moreover from in_target_arg [OF a7] g6 have
    "(\<exists>t. t \<noteq> [] \<and> g' = g3(3 \<mapsto> t)) \<or> (\<exists>t. t \<noteq> [] \<and> g' = g3(4 \<mapsto> t))" by simp
  ultimately show ?thesis by auto
qed

lemma group_or_nonempty:
  assumes "i \<le> m_ngroups m" "j \<le> m_ngroups m"
    and "(\<exists>t. t \<noteq> [] \<and> m_groups m i = Some t) \<or>
         (m_groups m i = None \<and> (\<exists>t. t \<noteq> [] \<and> m_groups m j = Some t))"
  shows "\<exists>t. t \<noteq> [] \<and> group_or m i j = Inr (PyStr t)"
  using assms by (auto simp: group_or_def group_def)

lemma command_of_Target:
  assumes "command_of k m = Inr (k', Target v)"
  shows "k \<noteq> ''add'' \<and> k \<noteq> ''implement'' \<and> group_or m 1 2 = Inr v"
proof (cases "k = ''add''")
  case True
  then show ?thesis using assms by (simp add: command_of_def split: sum.splits)
next
  case False
  show ?thesis
  proof (cases "k = ''implement''")
    case True
    then show ?thesis using assms
      by (simp add: command_of_def split: sum.splits pyval.splits if_splits)
  next
    case False
    with \<open>k \<noteq> ''add''\<close> show ?thesis using assms
      by (simp add: command_of_def split: sum.splits)
  qed
qed

lemma command_of_AddArgs:
  assumes "command_of k m = Inr (k', AddArgs f v)"
  shows "k = ''add'' \<and> group_or m 1 2 = Inr f \<and> group_or m 3 4 = Inr v"
proof (cases "k = ''add''")
  case True
  then show ?thesis using assms by (simp add: command_of_def split: sum.splits)
next
  case False
  show ?thesis
  proof (cases "k = ''implement''")
    case True
    then show ?thesis using assms
      by (simp add: command_of_def split: sum.splits pyval.splits if_splits)
  next
    case False
    with \<open>k \<noteq> ''add''\<close> show ?thesis using assms
      by (simp add: command_of_def split: sum.splits)
  qed
qed

lemma ngroups_target_pattern: "ngroups (target_pattern kw) = 2"
  by (simp add: target_pattern_def spaces_def target_arg_def)

lemma ngroups_add_pattern: "ngroups add_pattern = 4"
  by (simp add: add_pattern_def spaces_def target_arg_def)

lemma table_entries:
  assumes "(k, p) \<in> set COMMAND_PATTERNS"
  shows "k = ''fix'' \<and> p = target_pattern ''/fix'' \<or>
     k = ''improve'' \<and> p = target_pattern ''/improve'' \<or>
     k = ''document'' \<and> p = target_pattern ''/document'' \<or>
     k = ''add'' \<and> p = add_pattern \<or>
     k = ''analyze'' \<and> p = target_pattern ''/analyze'' \<or>
     k = ''explain'' \<and> p = target_pattern ''/explain'' \<or>
     k = ''implement'' \<and> p = implement_pattern \<or>
     k = ''refactor'' \<and> p = target_pattern ''/refactor'' \<or>
     k = ''test'' \<and> p = target_pattern ''/test'' \<or>
     k = ''help'' \<and> p = help_pattern"
  using assms unfolding COMMAND_PATTERNS_def by simp

lemma table_cases:
  assumes "(k, p) \<in> set COMMAND_PATTERNS"
  shows "(\<exists>kw. p = target_pattern kw) \<or> (k = ''add'' \<and> p = add_pattern)
     \<or> (k = ''implement'' \<and> p = implement_pattern) \<or> (k = ''help'' \<and> p = help_pattern)"
  using table_entries [OF assms] by blast

lemma group_or_help: "m_ngroups m = 0 \<Longrightarrow> group_or m 1 2 = Inl IndexError"
  by (simp add: group_or_def group_def)

lemma table_Target_nonempty:
  assumes "(k, p) \<in> set COMMAND_PATTERNS" and "m \<in> set (finditer p text)"
    and "command_of k m = Inr (k', Target v)"
  shows "\<exists>t. t \<noteq> [] \<and> v = PyStr t"
proof -
  from finditer_elem [OF assms(2)] obtain s0 rest where
    ma: "match_at p s0 = Some (rest, m_groups m)" and ng: "m_ngroups m = ngroups p" by blast
  from match_at_Some_mem [OF ma] have mem: "(rest, m_groups m) \<in> set (regex_match p s0 Map.empty)" .
  from command_of_Target [OF assms(3)] have
    k: "k \<noteq> ''add''" "k \<noteq> ''implement''" and go: "group_or m 1 2 = Inr v" by simp_all
  from table_cases [OF assms(1)] k have "(\<exists>kw. p = target_pattern kw) \<or> p = help_pattern" by auto
  then show ?thesis
  proof
    assume "\<exists>kw. p = target_pattern kw"
    then obtain kw where p: "p = target_pattern kw" by blast
    from mem p in_target_pattern have
      "(\<exists>t. t \<noteq> [] \<and> m_groups m 1 = Some t) \<or>
       (m_groups m 1 = None \<and> (\<exists>t. t \<noteq> [] \<and> m_groups m 2 = Some t))" by blast
    moreover have "1 \<le> m_ngroups m" "2 \<le> m_ngroups m" using ng p ngroups_target_pattern by simp_all
    ultimately obtain t where "t \<noteq> []" "group_or m 1 2 = Inr (PyStr t)"
      using group_or_nonempty [of 1 m 2] by blast
    with go show ?thesis by simp
  next
    assume "p = help_pattern"
    then have "m_ngroups m = 0" using ng by (simp add: help_pattern_def)
    from group_or_help [OF this] go show ?thesis by simp
  qed
qed

lemma table_AddArgs_nonempty:
  assumes "(k, p) \<in> set COMMAND_PATTERNS" and "m \<in> set (finditer p text)"
    and "command_of k m = Inr (k', AddArgs f v)"
  shows "(\<exists>t. t \<noteq> [] \<and> f = PyStr t) \<and> (\<exists>t. t \<noteq> [] \<and> v = PyStr t)"
proof -
  from finditer_elem [OF assms(2)] obtain s0 rest where
    ma: "match_at p s0 = Some (rest, m_groups m)" and ng: "m_ngroups m = ngroups p" by blast
  from match_at_Some_mem [OF ma] have mem: "(rest, m_groups m) \<in> set (regex_match p s0 Map.empty)" .
  from command_of_AddArgs [OF assms(3)] have
    k: "k = ''add''" and f: "group_or m 1 2 = Inr f" and v: "group_or m 3 4 = Inr v" by simp_all
  from assms(1) k have p: "p = add_pattern" by (auto simp: COMMAND_PATTERNS_def)
  have n: "m_ngroups m = 4" using ng p ngroups_add_pattern by simp
  from in_add_pattern [OF mem [unfolded p]] have
    a: "(\<exists>t. t \<noteq> [] \<and> m_groups m 1 = Some t) \<or>
        (m_groups m 1 = None \<and> (\<exists>t. t \<noteq> [] \<and> m_groups m 2 = Some t))" and
    b: "(\<exists>t. t \<noteq> [] \<and> m_groups m 3 = Some t) \<or>
        (m_groups m 3 = None \<and> (\<exists>t. t \<noteq> [] \<and> m_groups m 4 = Some t))" by blast+
  from group_or_nonempty [OF _ _ a] n f have "\<exists>t. t \<noteq> [] \<and> f = PyStr t" by simp
  moreover from group_or_nonempty [OF _ _ b] n v have "\<exists>t. t \<noteq> [] \<and> v = PyStr t" by simp
  ultimately show ?thesis by blast
qed

subsection \<open>The result follows the table\<close>

lemma command_of_fst:
  assumes "command_of k m = Inr c"
  shows "fst c = k"
proof (cases "k = ''add''")
  case True
  then show ?thesis using assms by (auto simp: command_of_def split: sum.splits)
next
  case False
  show ?thesis
  proof (cases "k = ''implement''")
    case True
    then show ?thesis using assms
      by (auto simp: command_of_def split: sum.splits pyval.splits if_splits)
  next
    case False
    with \<open>k \<noteq> ''add''\<close> show ?thesis using assms
      by (auto simp: command_of_def split: sum.splits)
  qed
qed

lemma map_err_command_of_fst:
  assumes "map_err (command_of k) ms = Inr cs" and "c \<in> set cs"
  shows "fst c = k"
proof -
  from list_all2_rightD [OF map_err_Inr [OF assms(1)] assms(2)]
  obtain m where "command_of k m = Inr c" by blast
  then show ?thesis by (rule command_of_fst)
qed

lemma detect_loop_fst:
  "detect_loop ps text = Inr cmds \<Longrightarrow> c \<in> set cmds \<Longrightarrow> fst c \<in> fst ` set ps"
proof -
  assume a: "detect_loop ps text = Inr cmds" "c \<in> set cmds"
  from detect_loop_elem [OF a] obtain k p m where
    kp: "(k, p) \<in> set ps" and c: "command_of k m = Inr c" by blast
  from command_of_fst [OF c] have "fst c = fst (k, p)" by simp
  with kp show ?thesis by (metis imageI)
qed

lemma detect_loop_sorted:
  "distinct (map fst ps) \<Longrightarrow> detect_loop ps text = Inr cmds \<Longrightarrow>
     sorted (map (\<lambda>c. length (takeWhile (\<lambda>kp. fst kp \<noteq> fst c) ps)) cmds)"
proof (induction ps arbitrary: cmds)
  case Nil
  then show ?case by simp
next
  case (Cons kp ps)
  obtain k p where kp: "kp = (k, p)" by (cases kp)
  from Cons.prems(2) kp obtain cs ds where
    cs: "map_err (command_of k) (finditer p text) = Inr cs" and
    ds: "detect_loop ps text = Inr ds" and cmds: "cmds = cs @ ds"
    by (auto split: sum.splits)
  define f where "f = (\<lambda>c::command. length (takeWhile (\<lambda>kp. fst kp \<noteq> fst c) (kp # ps)))"
  define g where "g = (\<lambda>c::command. length (takeWhile (\<lambda>kp. fst kp \<noteq> fst c) ps))"
  have fcs: "\<forall>c\<in>set cs. f c = 0"
    using map_err_command_of_fst [OF cs] kp by (simp add: f_def)
  have kd: "\<forall>c\<in>set ds. fst c \<noteq> k"
    using detect_loop_fst [OF ds] Cons.prems(1) kp by auto
  then have fds: "\<forall>c\<in>set ds. f c = Suc (g c)" using kp by (auto simp: f_def g_def)
  from Cons.IH [OF _ ds] Cons.prems(1) have "sorted (map g ds)" by (simp add: g_def)
  then have "sorted_wrt (\<lambda>x y. g x \<le> g y) ds" by (simp add: sorted_map)
  then have "sorted_wrt (\<lambda>x y. f x \<le> f y) ds"
    by (rule sorted_wrt_mono_rel [rotated]) (simp add: fds)
  then have sds: "sorted (map f ds)" by (simp add: sorted_map)
  have "sorted_wrt (\<lambda>x y. f x \<le> f y) cs"
    by (rule sorted_wrt_mono_rel [of cs "\<lambda>x y. True"]) (simp_all add: fcs)
  then have scs: "sorted (map f cs)" by (simp add: sorted_map)
  have "sorted (map f (cs @ ds))" using scs sds fcs by (simp add: sorted_append)
  then show ?case unfolding cmds f_def .
qed

lemma detect_loop_filter:
  "distinct (map fst ps) \<Longrightarrow> detect_loop ps text = Inr cmds \<Longrightarrow> (k, p) \<in> set ps \<Longrightarrow>
     map_err (command_of k) (finditer p text) = Inr (filter (\<lambda>c. fst c = k) cmds)"
proof (induction ps arbitrary: cmds)
  case Nil
  then show ?case by simp
next
  case (Cons kp ps)
  obtain k0 p0 where kp: "kp = (k0, p0)" by (cases kp)
  from Cons.prems(2) kp obtain cs ds where
    cs: "map_err (command_of k0) (finditer p0 text) = Inr cs" and
    ds: "detect_loop ps text = Inr ds" and cmds: "cmds = cs @ ds"
    by (auto split: sum.splits)
  have d: "distinct (map fst ps)" and k0: "k0 \<notin> fst ` set ps" using Cons.prems(1) kp by auto
  have csk: "\<forall>c\<in>set cs. fst c = k0" using map_err_command_of_fst [OF cs] by blast
  have dsk: "\<forall>c\<in>set ds. fst c \<noteq> k0" using detect_loop_fst [OF ds] k0 by auto
  show ?case
  proof (cases "k = k0")
    case True
    with Cons.prems(3) kp k0 have p: "p = p0" by force
    have "filter (\<lambda>c. fst c = k) cs = cs" using csk True by (simp add: filter_id_conv)
    moreover have "filter (\<lambda>c. fst c = k) ds = []" using dsk True by (simp add: filter_empty_conv)
    ultimately show ?thesis using cs True p cmds by simp
  next
    case False
    with Cons.prems(3) kp have mem: "(k, p) \<in> set ps" by auto
    have "filter (\<lambda>c. fst c = k) cs = []" using csk False by (simp add: filter_empty_conv)
    with Cons.IH [OF d ds mem] cmds show ?thesis by simp
  qed
qed

lemma distinct_table: "distinct (map fst COMMAND_PATTERNS)"
  by (simp add: COMMAND_PATTERNS_def)

subsection \<open>Every pattern starts with its keyword\<close>

lemma in_Cat_Lit_prefix:
  assumes "x \<in> set (regex_match (Cat (Lit w) r) s g)"
  shows "\<exists>post. s = w @ post"
proof -
  obtain s' g' where x: "x = (s', g')" by (cases x)
  from assms [unfolded x] obtain s1 g1 where "(s1, g1) \<in> set (regex_match (Lit w) s g)"
    unfolding in_Cat by blast
  then show ?thesis unfolding in_Lit by blast
qed

lemma in_target_pattern_prefix:
  "x \<in> set (regex_match (target_pattern kw) s g) \<Longrightarrow> \<exists>post. s = kw @ post"
  unfolding target_pattern_def by (rule in_Cat_Lit_prefix)

lemma table_keyword:
  assumes "(k, p) \<in> set COMMAND_PATTERNS" and "x \<in> set (regex_match p s g)"
  shows "\<exists>post. s = CHR ''/'' # k @ post"
proof -
  have tp: "\<And>kw. p = target_pattern kw \<Longrightarrow> \<exists>post. s = kw @ post"
    using assms(2) in_target_pattern_prefix by blast
  have "\<exists>post. s = (CHR ''/'' # k) @ post"
    using table_entries [OF assms(1)]
  proof (elim disjE conjE)
    assume k: "k = ''add''" and p: "p = add_pattern"
    from assms(2) [unfolded p add_pattern_def] have "\<exists>post. s = ''/add'' @ post"
      by (rule in_Cat_Lit_prefix)
    with k show ?thesis by simp
  next
    assume k: "k = ''implement''" and p: "p = implement_pattern"
    from assms(2) [unfolded p implement_pattern_def] have "\<exists>post. s = ''/implement'' @ post"
      by (rule in_Cat_Lit_prefix)
    with k show ?thesis by simp
  next
    assume k: "k = ''help''" and p: "p = help_pattern"
    obtain s' g' where x: "x = (s', g')" by (cases x)
    from assms(2) [unfolded p help_pattern_def x] have "s = ''/help'' @ s'"
      unfolding in_Lit by blast
    with k show ?thesis by simp
  next
    assume k: "k = ''fix''" and p: "p = target_pattern ''/fix''"
    from tp [OF p] k show ?thesis by simp
  next
    assume k: "k = ''improve''" and p: "p = target_pattern ''/improve''"
    from tp [OF p] k show ?thesis by simp
  next
    assume k: "k = ''document''" and p: "p = target_pattern ''/document''"
    from tp [OF p] k show ?thesis by simp
  next
    assume k: "k = ''analyze''" and p: "p = target_pattern ''/analyze''"
    from tp [OF p] k show ?thesis by simp
  next
    assume k: "k = ''explain''" and p: "p = target_pattern ''/explain''"
    from tp [OF p] k show ?thesis by simp
  next
    assume k: "k = ''refactor''" and p: "p = target_pattern ''/refactor''"
    from tp [OF p] k show ?thesis by simp
  next
    assume k: "k = ''test''" and p: "p = target_pattern ''/test''"
    from tp [OF p] k show ?thesis by simp
  qed
  then show ?thesis by simp
qed

lemma match_at_None_iff: "match_at p s = None \<longleftrightarrow> regex_match p s Map.empty = []"
  by (simp add: match_at_def split: list.splits)

lemma table_match_slash:
  assumes "(k, p) \<in> set COMMAND_PATTERNS" and "match_at p s = Some x"
  shows "\<exists>post. s = CHR ''/'' # k @ post"
  using table_keyword [OF assms(1) match_at_Some_mem [OF assms(2)]] .

lemma detect_loop_none:
  "(\<And>k p. (k, p) \<in> set ps \<Longrightarrow> finditer p text = []) \<Longrightarrow> detect_loop ps text = Inr []"
proof (induction ps)
  case Nil
  then show ?case by simp
next
  case (Cons kp ps)
  obtain k p where kp: "kp = (k, p)" by (cases kp)
  have "finditer p text = []" using Cons.prems [of k p] kp by simp
  moreover have "detect_loop ps text = Inr []"
  proof (rule Cons.IH)
    fix k' p'
    assume "(k', p') \<in> set ps"
    then show "finditer p' text = []" using Cons.prems [of k' p'] by simp
  qed
  ultimately show ?case using kp by simp
qed

lemma isspace_not_slash: "isspace c \<Longrightarrow> c \<noteq> CHR ''/''"
  by (auto simp: isspace_def)

lemma implement_class:
  "cset_matches (OneOf [Rng CHR ''0'' CHR ''9'', Ch CHR '','', WS]) c
     \<longleftrightarrow> is_decimal c \<or> c = CHR '','' \<or> isspace c"
  by (simp add: is_decimal_def)

lemma spaces_class: "cset_matches (OneOf [WS]) c \<longleftrightarrow> isspace c"
  by simp

lemma implement_one_space_None:
  assumes "isspace w"
    and "rest = [] \<or> (\<not> is_decimal (hd rest) \<and> hd rest \<noteq> CHR '','' \<and> \<not> isspace (hd rest))"
    and "take 3 rest \<noteq> ''all''"
  shows "match_at implement_pattern (''/implement'' @ w # rest) = None"
proof -
  have g1: "greedy (cset_matches (OneOf [WS])) rest = []"
    using assms(2) by (auto simp: greedy_Nil_iff)
  have g2: "greedy (cset_matches (OneOf [Rng CHR ''0'' CHR ''9'', Ch CHR '','', WS])) rest = []"
    using assms(2) unfolding greedy_Nil_iff implement_class by blast
  have sp: "strip_prefix ''all'' rest = None"
    using assms(3) by (simp add: strip_prefix_None_iff numeral_3_eq_3)
  have "regex_match (Alt (Lit ''all'')
      (Grp 1 (Many1 (OneOf [Rng CHR ''0'' CHR ''9'', Ch CHR '','', WS])))) rest g = []" for g
    using g2 sp by simp
  moreover have "regex_match spaces (w # rest) g = [(rest, g)]" for g
    using g1 assms(1) by (simp add: spaces_def)
  ultimately have "regex_match implement_pattern (''/implement'' @ w # rest) Map.empty = []"
    by (simp add: implement_pattern_def)
  then show ?thesis by (simp add: match_at_None_iff)
qed

subsection \<open>No exception without a help match or a long number\<close>
















subsection \<open>The first match of an expression\<close>












lemma bare_class:
  "cset_matches (NoneOf [WS, Ch dquote]) c \<longleftrightarrow> \<not> isspace c \<and> c \<noteq> dquote"
  by simp

lemma quoted_class: "cset_matches (NoneOf [Ch dquote]) c \<longleftrightarrow> c \<noteq> dquote"
  by simp



subsection \<open>Generated strings: one target, add\<close>



lemma command_of_one_target:
  assumes "k \<noteq> ''add''" and "k \<noteq> ''implement''" and "m_ngroups m = 2"
    and "m_groups m = [(case x of Bare _ \<Rightarrow> 2 | Quoted _ \<Rightarrow> 1) \<mapsto> arg_text x]"
    and "valid_arg x"
  shows "command_of k m = Inr (k, Target (PyStr (arg_text x)))"
proof (cases x)
  case (Bare t)
  with assms(4,5) have "m_groups m 1 = None" "m_groups m 2 = Some t" "t \<noteq> []" by simp_all
  with assms(1-3) Bare show ?thesis by (simp add: command_of_def group_or_def group_def)
next
  case (Quoted t)
  with assms(4,5) have "m_groups m 1 = Some t" "t \<noteq> []" by simp_all
  with assms(1-3) Quoted show ?thesis by (simp add: command_of_def group_or_def group_def)
qed








lemma command_of_add:
  assumes "m_ngroups m = 4"
    and "m_groups m = [(case f of Bare _ \<Rightarrow> 2 | Quoted _ \<Rightarrow> 1) \<mapsto> arg_text f,
                       (case t of Bare _ \<Rightarrow> 4 | Quoted _ \<Rightarrow> 3) \<mapsto> arg_text t]"
    and "valid_arg f" and "valid_arg t"
  shows "command_of ''add'' m = Inr (''add'', AddArgs (PyStr (arg_text f)) (PyStr (arg_text t)))"
proof -
  have a: "group_or m 1 2 = Inr (PyStr (arg_text f))"
  proof (cases f)
    case (Bare x)
    with assms(2,3) have "m_groups m 1 = None" "m_groups m 2 = Some x" "x \<noteq> []"
      by (cases t; simp)+
    with assms(1) Bare show ?thesis by (simp add: group_or_def group_def)
  next
    case (Quoted x)
    with assms(2,3) have "m_groups m 1 = Some x" "x \<noteq> []" by (cases t; simp)+
    with assms(1) Quoted show ?thesis by (simp add: group_or_def group_def)
  qed
  have b: "group_or m 3 4 = Inr (PyStr (arg_text t))"
  proof (cases t)
    case (Bare x)
    with assms(2,4) have "m_groups m 3 = None" "m_groups m 4 = Some x" "x \<noteq> []"
      by (cases f; simp)+
    with assms(1) Bare show ?thesis by (simp add: group_or_def group_def)
  next
    case (Quoted x)
    with assms(2,4) have "m_groups m 3 = Some x" "x \<noteq> []" by (cases f; simp)+
    with assms(1) Quoted show ?thesis by (simp add: group_or_def group_def)
  qed
  from a b show ?thesis by (simp add: command_of_def)
qed


subsection \<open>Generated strings: index lists\<close>




























subsection \<open>Two commands of one type; help in the second extractor\<close>










subsection \<open>Arguments are parts of the text\<close>

lemma in_spaces_text:
  assumes "(s', g') \<in> set (regex_match spaces s g)"
  shows "\<exists>ws. ws \<noteq> [] \<and> list_all isspace ws \<and> s = ws @ s' \<and> g' = g"
proof -
  from in_Many1 [OF assms [unfolded spaces_def]] obtain t where
    "t \<noteq> []" "list_all (cset_matches (OneOf [WS])) t" "s = t @ s'" "g' = g" by blast
  then have "t \<noteq> [] \<and> list_all isspace t \<and> s = t @ s' \<and> g' = g" by (simp add: list_all_iff)
  then show ?thesis by blast
qed

lemma in_target_arg_text:
  assumes "(s', g') \<in> set (regex_match (target_arg i j) s g)"
  shows "\<exists>x. valid_arg x \<and> s = render_arg x @ s'
            \<and> g' = g((case x of Bare _ \<Rightarrow> j | Quoted _ \<Rightarrow> i) \<mapsto> arg_text x)"
proof -
  from assms have
    "(s', g') \<in> set (regex_match (Cat (Lit [dquote])
        (Cat (Grp i (Many1 (NoneOf [Ch dquote]))) (Lit [dquote]))) s g)
     \<or> (s', g') \<in> set (regex_match (Grp j (Many1 (NoneOf [WS, Ch dquote]))) s g)"
    unfolding target_arg_def in_Alt .
  then show ?thesis
  proof
    assume "(s', g') \<in> set (regex_match (Cat (Lit [dquote])
        (Cat (Grp i (Many1 (NoneOf [Ch dquote]))) (Lit [dquote]))) s g)"
    from in_quoted [OF this] obtain t where
      "t \<noteq> []" "list_all (cset_matches (NoneOf [Ch dquote])) t"
      "s = dquote # t @ dquote # s'" "g' = g(i \<mapsto> t)" by blast
    then have "valid_arg (Quoted t) \<and> s = render_arg (Quoted t) @ s'
        \<and> g' = g((case Quoted t of Bare _ \<Rightarrow> j | Quoted _ \<Rightarrow> i) \<mapsto> arg_text (Quoted t))"
      by (simp add: list_all_iff)
    then show ?thesis by blast
  next
    assume "(s', g') \<in> set (regex_match (Grp j (Many1 (NoneOf [WS, Ch dquote]))) s g)"
    from in_Grp_Many1 [OF this] obtain t where
      "t \<noteq> []" "list_all (cset_matches (NoneOf [WS, Ch dquote])) t"
      "s = t @ s'" "g' = g(j \<mapsto> t)" by blast
    then have "valid_arg (Bare t) \<and> s = render_arg (Bare t) @ s'
        \<and> g' = g((case Bare t of Bare _ \<Rightarrow> j | Quoted _ \<Rightarrow> i) \<mapsto> arg_text (Bare t))"
      by (simp add: list_all_iff)
    then show ?thesis by blast
  qed
qed

lemma in_target_pattern_text:
  assumes "(s', g') \<in> set (regex_match (target_pattern kw) s Map.empty)"
  shows "\<exists>ws x. ws \<noteq> [] \<and> list_all isspace ws \<and> valid_arg x
            \<and> s = kw @ ws @ render_arg x @ s'
            \<and> g' = [(case x of Bare _ \<Rightarrow> 2 | Quoted _ \<Rightarrow> 1) \<mapsto> arg_text x]"
proof -
  from assms obtain s1 g1 where
    a: "(s1, g1) \<in> set (regex_match (Lit kw) s Map.empty)" and
    b: "(s', g') \<in> set (regex_match (Cat spaces (target_arg 1 2)) s1 g1)"
    unfolding target_pattern_def in_Cat by blast
  from b obtain s2 g2 where
    c: "(s2, g2) \<in> set (regex_match spaces s1 g1)" and
    d: "(s', g') \<in> set (regex_match (target_arg 1 2) s2 g2)"
    unfolding in_Cat by blast
  from a have a': "s = kw @ s1" "g1 = Map.empty" unfolding in_Lit by simp_all
  from in_spaces_text [OF c] obtain ws where
    ws: "ws \<noteq> []" "list_all isspace ws" "s1 = ws @ s2" "g2 = g1" by blast
  from in_target_arg_text [OF d] obtain x where
    x: "valid_arg x" "s2 = render_arg x @ s'"
       "g' = g2((case x of Bare _ \<Rightarrow> 2 | Quoted _ \<Rightarrow> 1) \<mapsto> arg_text x)" by blast
  have "s = kw @ ws @ render_arg x @ s'" using a'(1) ws(3) x(2) by simp
  moreover have "g' = [(case x of Bare _ \<Rightarrow> 2 | Quoted _ \<Rightarrow> 1) \<mapsto> arg_text x]"
    using a'(2) ws(4) x(3) by simp
  ultimately show ?thesis using ws(1,2) x(1) by blast
qed

lemma in_add_pattern_text:
  assumes "(s', g') \<in> set (regex_match add_pattern s Map.empty)"
  shows "\<exists>w1 x w2 w3 y. w1 \<noteq> [] \<and> list_all isspace w1 \<and> w2 \<noteq> [] \<and> list_all isspace w2
            \<and> w3 \<noteq> [] \<and> list_all isspace w3 \<and> valid_arg x \<and> valid_arg y
            \<and> s = ''/add'' @ w1 @ render_arg x @ w2 @ ''to'' @ w3 @ render_arg y @ s'
            \<and> g' = [(case x of Bare _ \<Rightarrow> 2 | Quoted _ \<Rightarrow> 1) \<mapsto> arg_text x,
                    (case y of Bare _ \<Rightarrow> 4 | Quoted _ \<Rightarrow> 3) \<mapsto> arg_text y]"
proof -
  from assms obtain s1 g1 where
    a1: "(s1, g1) \<in> set (regex_match (Lit ''/add'') s Map.empty)" and
    r1: "(s', g') \<in> set (regex_match (Cat spaces (Cat (target_arg 1 2)
       (Cat spaces (Cat (Lit ''to'') (Cat spaces (target_arg 3 4)))))) s1 g1)"
    unfolding add_pattern_def in_Cat by blast
  from r1 obtain s2 g2 where
    a2: "(s2, g2) \<in> set (regex_match spaces s1 g1)" and
    r2: "(s', g') \<in> set (regex_match (Cat (target_arg 1 2)
       (Cat spaces (Cat (Lit ''to'') (Cat spaces (target_arg 3 4))))) s2 g2)"
    unfolding in_Cat by blast
  from r2 obtain s3 g3 where
    a3: "(s3, g3) \<in> set (regex_match (target_arg 1 2) s2 g2)" and
    r3: "(s', g') \<in> set (regex_match
       (Cat spaces (Cat (Lit ''to'') (Cat spaces (target_arg 3 4)))) s3 g3)"
    unfolding in_Cat by blast
  from r3 obtain s4 g4 where
    a4: "(s4, g4) \<in> set (regex_match spaces s3 g3)" and
    r4: "(s', g') \<in> set (regex_match (Cat (Lit ''to'') (Cat spaces (target_arg 3 4))) s4 g4)"
    unfolding in_Cat by blast
  from r4 obtain s5 g5 where
    a5: "(s5, g5) \<in> set (regex_match (Lit ''to'') s4 g4)" and
    r5: "(s', g') \<in> set (regex_match (Cat spaces (target_arg 3 4)) s5 g5)"
    unfolding in_Cat by blast
  from r5 obtain s6 g6 where
    a6: "(s6, g6) \<in> set (regex_match spaces s5 g5)" and
    a7: "(s', g') \<in> set (regex_match (target_arg 3 4) s6 g6)"
    unfolding in_Cat by blast
  from a1 have b1: "s = ''/add'' @ s1" "g1 = Map.empty" unfolding in_Lit by simp_all
  from in_spaces_text [OF a2] obtain w1 where
    b2: "w1 \<noteq> []" "list_all isspace w1" "s1 = w1 @ s2" "g2 = g1" by blast
  from in_target_arg_text [OF a3] obtain x where
    b3: "valid_arg x" "s2 = render_arg x @ s3"
        "g3 = g2((case x of Bare _ \<Rightarrow> 2 | Quoted _ \<Rightarrow> 1) \<mapsto> arg_text x)" by blast
  from in_spaces_text [OF a4] obtain w2 where
    b4: "w2 \<noteq> []" "list_all isspace w2" "s3 = w2 @ s4" "g4 = g3" by blast
  from a5 have b5: "s4 = ''to'' @ s5" "g5 = g4" unfolding in_Lit by simp_all
  from in_spaces_text [OF a6] obtain w3 where
    b6: "w3 \<noteq> []" "list_all isspace w3" "s5 = w3 @ s6" "g6 = g5" by blast
  from in_target_arg_text [OF a7] obtain y where
    b7: "valid_arg y" "s6 = render_arg y @ s'"
        "g' = g6((case y of Bare _ \<Rightarrow> 4 | Quoted _ \<Rightarrow> 3) \<mapsto> arg_text y)" by blast
  have "s = ''/add'' @ w1 @ render_arg x @ w2 @ ''to'' @ w3 @ render_arg y @ s'"
    using b1(1) b2(3) b3(2) b4(3) b5(1) b6(3) b7(2) by simp
  moreover have "g' = [(case x of Bare _ \<Rightarrow> 2 | Quoted _ \<Rightarrow> 1) \<mapsto> arg_text x,
                    (case y of Bare _ \<Rightarrow> 4 | Quoted _ \<Rightarrow> 3) \<mapsto> arg_text y]"
    using b1(2) b2(4) b3(3) b4(4) b5(2) b6(4) b7(3) by simp
  ultimately show ?thesis using b2(1,2) b4(1,2) b6(1,2) b3(1) b7(1) by blast
qed

lemma table_target_kw:
  assumes "(k, p) \<in> set COMMAND_PATTERNS"
    and "k \<noteq> ''add''" and "k \<noteq> ''implement''" and "k \<noteq> ''help''"
  shows "p = target_pattern (CHR ''/'' # k)"
  using table_entries [OF assms(1)] assms(2-4) by (elim disjE conjE) simp_all

lemma table_Target_text:
  assumes "(k, p) \<in> set COMMAND_PATTERNS" and "m \<in> set (finditer p text)"
    and "command_of k m = Inr (k', Target (PyStr t))"
  shows "\<exists>pre ws x post. text = pre @ CHR ''/'' # k' @ ws @ render_arg x @ post
           \<and> ws \<noteq> [] \<and> list_all isspace ws \<and> valid_arg x \<and> arg_text x = t"
proof -
  from finditer_elem [OF assms(2)] obtain pre s0 rest where
    tx: "text = pre @ s0" and
    ma: "match_at p s0 = Some (rest, m_groups m)" and ng: "m_ngroups m = ngroups p" by blast
  from match_at_Some_mem [OF ma] have mem: "(rest, m_groups m) \<in> set (regex_match p s0 Map.empty)" .
  from command_of_Target [OF assms(3)] have
    k: "k \<noteq> ''add''" "k \<noteq> ''implement''" and go: "group_or m 1 2 = Inr (PyStr t)" by simp_all
  from command_of_fst [OF assms(3)] have kk: "k' = k" by simp
  have nh: "k \<noteq> ''help''"
  proof
    assume "k = ''help''"
    with table_entries [OF assms(1)] have "p = help_pattern" by simp
    then have "m_ngroups m = 0" using ng by (simp add: help_pattern_def)
    from group_or_help [OF this] go show False by simp
  qed
  from table_target_kw [OF assms(1) k nh] have p: "p = target_pattern (CHR ''/'' # k)" .
  from in_target_pattern_text [OF mem [unfolded p]] obtain ws x where
    w: "ws \<noteq> []" "list_all isspace ws" "valid_arg x"
       "s0 = (CHR ''/'' # k) @ ws @ render_arg x @ rest"
       "m_groups m = [(case x of Bare _ \<Rightarrow> 2 | Quoted _ \<Rightarrow> 1) \<mapsto> arg_text x]" by blast
  have n: "m_ngroups m = 2" using ng p ngroups_target_pattern by simp
  from command_of_one_target [OF k n w(5) w(3)] assms(3) have "arg_text x = t" by simp
  moreover have "text = pre @ CHR ''/'' # k' @ ws @ render_arg x @ rest"
    using tx w(4) kk by simp
  ultimately show ?thesis using w(1-3) by blast
qed

lemma table_AddArgs_text:
  assumes "(k, p) \<in> set COMMAND_PATTERNS" and "m \<in> set (finditer p text)"
    and "command_of k m = Inr (k', AddArgs (PyStr f) (PyStr t))"
  shows "\<exists>pre w1 x w2 w3 y post.
           text = pre @ ''/add'' @ w1 @ render_arg x @ w2 @ ''to'' @ w3 @ render_arg y @ post
           \<and> w1 \<noteq> [] \<and> list_all isspace w1 \<and> w2 \<noteq> [] \<and> list_all isspace w2
           \<and> w3 \<noteq> [] \<and> list_all isspace w3
           \<and> valid_arg x \<and> arg_text x = f \<and> valid_arg y \<and> arg_text y = t"
proof -
  from finditer_elem [OF assms(2)] obtain pre s0 rest where
    tx: "text = pre @ s0" and
    ma: "match_at p s0 = Some (rest, m_groups m)" and ng: "m_ngroups m = ngroups p" by blast
  from match_at_Some_mem [OF ma] have mem: "(rest, m_groups m) \<in> set (regex_match p s0 Map.empty)" .
  from command_of_AddArgs [OF assms(3)] have k: "k = ''add''" by simp
  from assms(1) k have p: "p = add_pattern" using table_entries [OF assms(1)] by simp
  have n: "m_ngroups m = 4" using ng p ngroups_add_pattern by simp
  from in_add_pattern_text [OF mem [unfolded p]] obtain w1 x w2 w3 y where
    w: "w1 \<noteq> []" "list_all isspace w1" "w2 \<noteq> []" "list_all isspace w2"
       "w3 \<noteq> []" "list_all isspace w3" "valid_arg x" "valid_arg y"
       "s0 = ''/add'' @ w1 @ render_arg x @ w2 @ ''to'' @ w3 @ render_arg y @ rest"
       "m_groups m = [(case x of Bare _ \<Rightarrow> 2 | Quoted _ \<Rightarrow> 1) \<mapsto> arg_text x,
                      (case y of Bare _ \<Rightarrow> 4 | Quoted _ \<Rightarrow> 3) \<mapsto> arg_text y]" by blast
  from command_of_add [OF n w(10) w(7,8)] assms(3) k have "arg_text x = f" "arg_text y = t"
    by simp_all
  moreover have
    "text = pre @ ''/add'' @ w1 @ render_arg x @ w2 @ ''to'' @ w3 @ render_arg y @ rest"
    using tx w(9) by simp
  ultimately show ?thesis using w(1-8) by blast
qed

subsection \<open>What matches at one place of the text\<close>

lemma finditer_start_match:
  assumes "m \<in> set (finditer p (pre @ s))" and "m_start m = length pre"
  shows "\<exists>x. match_at p s = Some x"
proof -
  from finditer_elem [OF assms(1)] obtain pre' s0 rest where
    e: "pre @ s = pre' @ s0" and ma: "match_at p s0 = Some (rest, m_groups m)"
    and st: "m_start m = length pre'" by blast
  from st assms(2) have "length pre = length pre'" by simp
  with e have "s = s0" by simp
  with ma show ?thesis by blast
qed

lemma table_keyword_unique:
  assumes "(k, p) \<in> set COMMAND_PATTERNS" and "(k', p') \<in> set COMMAND_PATTERNS"
    and "k @ r = k' @ r'"
  shows "k' = k \<and> p' = p"
  using table_entries [OF assms(1)] table_entries [OF assms(2)] assms(3)
  by (elim disjE conjE) simp_all

lemma single_slash:
  "pre @ c # X = pre' @ c # Y \<Longrightarrow> c \<notin> set pre \<Longrightarrow> c \<notin> set X \<Longrightarrow> pre' = pre"
proof (induction pre arbitrary: pre')
  case Nil
  then show ?case by (cases pre') auto
next
  case (Cons a pre)
  then show ?case by (cases pre') auto
qed

lemma detect_none_single_slash:
  assumes "CHR ''/'' \<notin> set pre" and "CHR ''/'' \<notin> set X"
    and "\<And>k p. (k, p) \<in> set COMMAND_PATTERNS \<Longrightarrow> match_at p (CHR ''/'' # X) = None"
  shows "detect_commands (pre @ CHR ''/'' # X) = Inr []"
  unfolding detect_commands_def
proof (rule detect_loop_none)
  fix k p
  assume kp: "(k, p) \<in> set COMMAND_PATTERNS"
  show "finditer p (pre @ CHR ''/'' # X) = []"
  proof (cases "finditer p (pre @ CHR ''/'' # X)")
    case Nil
    then show ?thesis .
  next
    case (Cons m ms)
    then have "m \<in> set (finditer p (pre @ CHR ''/'' # X))" by simp
    from finditer_elem [OF this] obtain pre' s0 rest where
      e: "pre @ CHR ''/'' # X = pre' @ s0" and ma: "match_at p s0 = Some (rest, m_groups m)"
      by blast
    from table_match_slash [OF kp ma] obtain post where s0: "s0 = CHR ''/'' # k @ post" by blast
    from e s0 have e': "pre @ CHR ''/'' # X = pre' @ CHR ''/'' # (k @ post)" by simp
    from single_slash [OF e' assms(1,2)] have "pre' = pre" .
    with e have "s0 = CHR ''/'' # X" by simp
    with ma assms(3) [OF kp] show ?thesis by simp
  qed
qed

subsection \<open>A keyword before an empty pair of quotes\<close>

lemma isspace_not_dquote: "isspace c \<Longrightarrow> c \<noteq> dquote"
  by (auto simp: isspace_def)

lemma target_arg_fails:
  assumes "s = [] \<or> isspace (hd s) \<or> (\<exists>r. s = dquote # dquote # r)"
  shows "regex_match (target_arg i j) s g = []"
proof (cases s)
  case Nil
  then show ?thesis by (simp add: target_arg_def)
next
  case (Cons c s')
  with assms have "isspace c \<or> (\<exists>r. s' = dquote # r \<and> c = dquote)" by auto
  then show ?thesis
  proof
    assume "isspace c"
    with isspace_not_dquote [of c] Cons show ?thesis by (simp add: target_arg_def)
  next
    assume "\<exists>r. s' = dquote # r \<and> c = dquote"
    with Cons show ?thesis by (auto simp: target_arg_def)
  qed
qed

lemma spaces_then_text:
  assumes "list_all isspace ws" and "list_all isspace t" and "ws @ r = t @ s2"
    and "r \<noteq> []" and "\<not> isspace (hd r)"
  shows "s2 = r \<or> (s2 \<noteq> [] \<and> isspace (hd s2))"
  using assms
proof (induction ws arbitrary: t)
  case Nil
  show ?case
  proof (cases t)
    case Nil
    with Nil.prems show ?thesis by simp
  next
    case (Cons c t')
    with Nil.prems(3) have "hd r = c" by (cases r) auto
    with Cons Nil.prems(2,5) show ?thesis by simp
  qed
next
  case (Cons w ws)
  show ?case
  proof (cases t)
    case Nil
    with Cons.prems show ?thesis by auto
  next
    case (Cons c t')
    with Cons.prems have "list_all isspace ws" "list_all isspace t'" "ws @ r = t' @ s2" by simp_all
    from Cons.IH [OF this Cons.prems(4,5)] show ?thesis .
  qed
qed

lemma spaces_then_quotes:
  assumes "list_all isspace ws" and "(s2, g2) \<in> set (regex_match spaces (ws @ dquote # dquote # rest) g)"
  shows "regex_match (target_arg i j) s2 g' = []"
proof -
  from in_spaces_text [OF assms(2)] obtain t where
    t: "list_all isspace t" "ws @ dquote # dquote # rest = t @ s2" by blast
  have "\<not> isspace (hd (dquote # dquote # rest))" by (simp add: isspace_def)
  from spaces_then_text [OF assms(1) t _ this]
  have "s2 = dquote # dquote # rest \<or> (s2 \<noteq> [] \<and> isspace (hd s2))" by simp
  then show ?thesis by (intro target_arg_fails) blast
qed

lemma target_pattern_empty_quotes:
  assumes "list_all isspace ws"
  shows "match_at (target_pattern kw) (kw @ ws @ dquote # dquote # rest) = None"
proof (cases "match_at (target_pattern kw) (kw @ ws @ dquote # dquote # rest)")
  case None
  then show ?thesis .
next
  case (Some x)
  obtain s' g' where x: "x = (s', g')" by (cases x)
  from match_at_Some_mem [OF Some] x have
    "(s', g') \<in> set (regex_match (target_pattern kw) (kw @ ws @ dquote # dquote # rest) Map.empty)"
    by simp
  then obtain s1 g1 where
    a: "(s1, g1) \<in> set (regex_match (Lit kw) (kw @ ws @ dquote # dquote # rest) Map.empty)" and
    b: "(s', g') \<in> set (regex_match (Cat spaces (target_arg 1 2)) s1 g1)"
    unfolding target_pattern_def in_Cat by blast
  from b obtain s2 g2 where
    c: "(s2, g2) \<in> set (regex_match spaces s1 g1)" and
    d: "(s', g') \<in> set (regex_match (target_arg 1 2) s2 g2)"
    unfolding in_Cat by blast
  from a have "s1 = ws @ dquote # dquote # rest" unfolding in_Lit by simp
  with c spaces_then_quotes [OF assms, of s2 g2 rest g1 1 2 g2] d show ?thesis by simp
qed

lemma add_pattern_empty_quotes:
  assumes "list_all isspace ws"
  shows "match_at add_pattern (''/add'' @ ws @ dquote # dquote # rest) = None"
proof (cases "match_at add_pattern (''/add'' @ ws @ dquote # dquote # rest)")
  case None
  then show ?thesis .
next
  case (Some x)
  obtain s' g' where x: "x = (s', g')" by (cases x)
  from match_at_Some_mem [OF Some] x have
    "(s', g') \<in> set (regex_match add_pattern (''/add'' @ ws @ dquote # dquote # rest) Map.empty)"
    by simp
  then obtain s1 g1 where
    a: "(s1, g1) \<in> set (regex_match (Lit ''/add'')
          (''/add'' @ ws @ dquote # dquote # rest) Map.empty)" and
    b: "(s', g') \<in> set (regex_match (Cat spaces (Cat (target_arg 1 2)
       (Cat spaces (Cat (Lit ''to'') (Cat spaces (target_arg 3 4)))))) s1 g1)"
    unfolding add_pattern_def in_Cat by blast
  from b obtain s2 g2 where
    c: "(s2, g2) \<in> set (regex_match spaces s1 g1)" and
    d: "(s', g') \<in> set (regex_match (Cat (target_arg 1 2)
       (Cat spaces (Cat (Lit ''to'') (Cat spaces (target_arg 3 4))))) s2 g2)"
    unfolding in_Cat by blast
  from d obtain s3 g3 where
    e: "(s3, g3) \<in> set (regex_match (target_arg 1 2) s2 g2)"
    unfolding in_Cat by blast
  from a have "s1 = ws @ dquote # dquote # rest" unfolding in_Lit by simp
  with c spaces_then_quotes [OF assms, of s2 g2 rest g1 1 2 g2] e show ?thesis by simp
qed

lemma keyword_entry:
  assumes "k \<in> set (''add'' # target_keywords)"
  shows "CHR ''/'' \<notin> set k
       \<and> (k, if k = ''add'' then add_pattern else target_pattern (CHR ''/'' # k))
            \<in> set COMMAND_PATTERNS"
proof -
  from assms have "k = ''add'' \<or> k = ''fix'' \<or> k = ''improve'' \<or> k = ''document''
      \<or> k = ''analyze'' \<or> k = ''explain'' \<or> k = ''refactor'' \<or> k = ''test''"
    by (simp add: target_keywords_def)
  then show ?thesis by (elim disjE) (simp_all add: COMMAND_PATTERNS_def)
qed

lemma empty_quotes_table_None:
  assumes "k \<in> set (''add'' # target_keywords)" and "list_all isspace ws"
    and "(k', p') \<in> set COMMAND_PATTERNS"
  shows "match_at p' (CHR ''/'' # k @ ws @ dquote # dquote # rest) = None"
proof (cases "match_at p' (CHR ''/'' # k @ ws @ dquote # dquote # rest)")
  case None
  then show ?thesis .
next
  case (Some x)
  let ?p = "if k = ''add'' then add_pattern else target_pattern (CHR ''/'' # k)"
  from keyword_entry [OF assms(1)] have kp: "(k, ?p) \<in> set COMMAND_PATTERNS" by simp
  from table_match_slash [OF assms(3) Some] obtain post where
    "CHR ''/'' # k @ ws @ dquote # dquote # rest = CHR ''/'' # k' @ post" by blast
  then have "k @ (ws @ dquote # dquote # rest) = k' @ post" by simp
  from table_keyword_unique [OF kp assms(3) this] have pp: "p' = ?p" by simp
  show ?thesis
  proof (cases "k = ''add''")
    case True
    with pp add_pattern_empty_quotes [OF assms(2), of rest] show ?thesis by simp
  next
    case False
    with pp target_pattern_empty_quotes [OF assms(2), of "CHR ''/'' # k" rest]
    show ?thesis by simp
  qed
qed

subsection \<open>The implement keyword before other text\<close>

lemma implement_short_space_None:
  assumes "list_all isspace ws" and "length ws \<le> 1"
    and "rest = [] \<or> (\<not> is_decimal (hd rest) \<and> hd rest \<noteq> CHR '','' \<and> \<not> isspace (hd rest))"
    and "take 3 rest \<noteq> ''all''"
  shows "match_at implement_pattern (''/implement'' @ ws @ rest) = None"
proof (cases ws)
  case Nil
  have "greedy (cset_matches (OneOf [WS])) rest = []"
    using assms(3) by (auto simp: greedy_Nil_iff)
  then have "regex_match spaces rest g = []" for g by (simp add: spaces_def)
  then have "regex_match implement_pattern (''/implement'' @ rest) Map.empty = []"
    by (simp add: implement_pattern_def)
  with Nil show ?thesis by (simp add: match_at_None_iff)
next
  case (Cons w ws')
  with assms(1,2) have "isspace w" "ws' = []" by simp_all
  with Cons implement_one_space_None [OF _ assms(3,4), of w] show ?thesis by simp
qed

lemma implement_table_None:
  assumes "list_all isspace ws" and "length ws \<le> 1"
    and "rest = [] \<or> (\<not> is_decimal (hd rest) \<and> hd rest \<noteq> CHR '','' \<and> \<not> isspace (hd rest))"
    and "take 3 rest \<noteq> ''all''"
    and "(k, p) \<in> set COMMAND_PATTERNS"
  shows "match_at p (''/implement'' @ ws @ rest) = None"
proof (cases "match_at p (''/implement'' @ ws @ rest)")
  case None
  then show ?thesis .
next
  case (Some x)
  have ip: "(''implement'', implement_pattern) \<in> set COMMAND_PATTERNS"
    by (simp add: COMMAND_PATTERNS_def)
  from table_match_slash [OF assms(5) Some] obtain post where
    "''/implement'' @ ws @ rest = CHR ''/'' # k @ post" by blast
  then have "''implement'' @ (ws @ rest) = k @ post" by simp
  from table_keyword_unique [OF ip assms(5) this] have "p = implement_pattern" by simp
  with implement_short_space_None [OF assms(1-4)] show ?thesis by simp
qed

section \<open>The help pattern has no group\<close>

text \<open>
  C1. The claim is that detection never raises. On the text \<open>/help\<close> the loop of
  \<open>detect_commands\<close> reaches the branch for commands with one argument and reads
  group 1 of a pattern that has no group: the call ends with IndexError.
\<close>

theorem detect_commands_help_raises:
  "detect_commands ''/help'' = Inl IndexError"
  by code_simp

text \<open>
  C2. The claim is that the text \<open>/help\<close> gives exactly the one command Help.
  \<open>detect_commands\<close> raises there, so it returns no list;
  \<open>_extract_commands\<close>, which tests the help pattern without reading a group, does
  return that list.
\<close>

theorem help_alone:
  "detect_commands ''/help'' \<noteq> Inr [Help] \<and> extract_commands ''/help'' = Inr [Help]"
  by code_simp

section \<open>Inputs on which the code departs from the stated behaviour\<close>

text \<open>
  C3 fails on two commands written in the text in the reverse of the table's order: the
  result is not in the order of the text.
\<close>

theorem order_by_kind_counterexample:
  "detect_commands ''/document b.java and also /fix a.java''
     = Inr [Fix ''a.java'', Document ''b.java'']
   \<and> detect_commands ''/document b.java and also /fix a.java''
     \<noteq> Inr [Document ''b.java'', Fix ''a.java'']"
  by code_simp

text \<open>
  C4 fails on \<open>/implement ,\<close> and on \<open>/implement  banana\<close> with two blanks: a command
  with an empty index list is returned though neither \<open>all\<close> nor a digit follows.
\<close>

theorem implement_without_digit_counterexample:
  "detect_commands ''/implement ,'' = Inr [Implement_Indices []]
   \<and> detect_commands ''/implement  banana'' = Inr [Implement_Indices []]"
  by code_simp

text \<open>
  C5 fails on \<open>/fix ""\<close>: no command is returned, so none with an empty target.
\<close>

theorem empty_quotes_counterexample:
  "detect_commands (''/fix '' @ [dquote, dquote]) = Inr []"
  by code_simp


text \<open>
  C8 fails on a keyword in upper case: it is not recognised.
\<close>

theorem upper_case_counterexample:
  "detect_commands ''/FIX Foo.java'' = Inr []"
  by code_simp

text \<open>
  C9 fails on \<open>/implement 0\<close>: the index list holds zero.
\<close>

theorem index_zero_counterexample:
  "detect_commands ''/implement 0'' = Inr [Implement_Indices [0]]"
  by code_simp


section \<open>Properties of every detected command\<close>

text \<open>
  C6. Whenever \<open>detect_commands\<close> returns a list, every command of it that carries a
  target (the one-argument commands, and add with its feature and target) has a target
  that is a non-empty string: both alternatives of the argument pattern take at least
  one character.
\<close>

theorem detected_target_nonempty:
  assumes "detect_commands text = Inr cmds"
  shows "((k, Target v) \<in> set cmds \<longrightarrow> (\<exists>t. t \<noteq> [] \<and> v = PyStr t))
       \<and> ((k', AddArgs f v') \<in> set cmds \<longrightarrow>
            (\<exists>t. t \<noteq> [] \<and> f = PyStr t) \<and> (\<exists>t. t \<noteq> [] \<and> v' = PyStr t))"
proof (intro conjI impI)
  assume "(k, Target v) \<in> set cmds"
  from detect_loop_elem [OF assms [unfolded detect_commands_def] this]
  obtain k0 p m where "(k0, p) \<in> set COMMAND_PATTERNS" "m \<in> set (finditer p text)"
    "command_of k0 m = Inr (k, Target v)" by blast
  then show "\<exists>t. t \<noteq> [] \<and> v = PyStr t" by (rule table_Target_nonempty)
next
  assume "(k', AddArgs f v') \<in> set cmds"
  from detect_loop_elem [OF assms [unfolded detect_commands_def] this]
  obtain k0 p m where *: "(k0, p) \<in> set COMMAND_PATTERNS" "m \<in> set (finditer p text)"
    "command_of k0 m = Inr (k', AddArgs f v')" by blast
  from table_AddArgs_nonempty [OF *] show "\<exists>t. t \<noteq> [] \<and> f = PyStr t" by blast
  from table_AddArgs_nonempty [OF *] show "\<exists>t. t \<noteq> [] \<and> v' = PyStr t" by blast
qed

theorem detected_target_nonempty_witness:
  "detect_commands ''/fix a.java /add x to y'' = Inr [Fix ''a.java'', Add ''x'' ''y'']
   \<and> (\<exists>t. t \<noteq> [] \<and> PyStr ''a.java'' = PyStr t)
   \<and> (\<exists>t. t \<noteq> [] \<and> PyStr ''x'' = PyStr t) \<and> (\<exists>t. t \<noteq> [] \<and> PyStr ''y'' = PyStr t)"
proof -
  have h: "detect_commands ''/fix a.java /add x to y'' = Inr [Fix ''a.java'', Add ''x'' ''y'']"
    by code_simp
  from detected_target_nonempty [OF h, where k = "''fix''" and v = "PyStr ''a.java''"
      and k' = "''add''" and f = "PyStr ''x''" and v' = "PyStr ''y''"]
  show ?thesis using h by simp
qed

text \<open>
  C9, as the code has it. The claim is that an index list holds positive integers only.
  The list comprehension keeps every piece that \<open>isdigit\<close> accepts, and \<open>0\<close> is one, so
  the indices are non-negative and zero can occur.
\<close>

theorem indices_nonneg:
  assumes "detect_commands text = Inr cmds" and "(k, Indices ns) \<in> set cmds" and "n \<in> set ns"
  shows "0 \<le> n"
proof -
  from detect_loop_elem [OF assms(1) [unfolded detect_commands_def] assms(2)]
  obtain k' m where "command_of k' m = Inr (k, Indices ns)" by blast
  from command_of_indices [OF this] obtain s where "parse_indices s = Inr ns" by blast
  from parse_indices_nonneg [OF this assms(3)] show ?thesis .
qed

theorem indices_nonneg_witness:
  "detect_commands ''/implement 0, 7'' = Inr [Implement_Indices [0, 7]] \<and> (0::int) \<le> 7"
proof -
  have h: "detect_commands ''/implement 0, 7'' = Inr [Implement_Indices [0, 7]]"
    by code_simp
  have "(0::int) \<le> 7"
    by (rule indices_nonneg [OF h, of "''implement''" "[0, 7]" 7]) simp_all
  with h show ?thesis by simp
qed

section \<open>The order of the result\<close>

text \<open>
  C3, as the code has it. The claim is that the commands come in the order of their
  first characters in the text. The outer loop runs over the table and the inner loop
  over the matches of one pattern, so the result is grouped by command type in the order
  of the table (fix, improve, document, add, analyze, explain, implement, refactor, test,
  help); the commands of one type are those of the matches of its pattern, in the order
  of \<open>finditer\<close>, which is by strictly increasing start offset.
\<close>

theorem detect_order_by_kind:
  assumes "detect_commands text = Inr cmds"
  shows "sorted (map (\<lambda>c. kind_rank (fst c)) cmds)
       \<and> ((k, p) \<in> set COMMAND_PATTERNS \<longrightarrow>
            map_err (command_of k) (finditer p text) = Inr (filter (\<lambda>c. fst c = k) cmds)
            \<and> sorted_wrt (<) (map m_start (finditer p text)))"
proof -
  note a = assms [unfolded detect_commands_def]
  have "sorted (map (\<lambda>c. kind_rank (fst c)) cmds)"
    unfolding kind_rank_def by (rule detect_loop_sorted [OF distinct_table a])
  moreover have "(k, p) \<in> set COMMAND_PATTERNS \<longrightarrow>
      map_err (command_of k) (finditer p text) = Inr (filter (\<lambda>c. fst c = k) cmds)"
    using detect_loop_filter [OF distinct_table a] by blast
  ultimately show ?thesis using finditer_starts_increasing by blast
qed

theorem detect_order_by_kind_witness:
  "detect_commands ''/fix a.java and also /document b.java''
     = Inr [Fix ''a.java'', Document ''b.java'']
   \<and> sorted (map (\<lambda>c. kind_rank (fst c)) [Fix ''a.java'', Document ''b.java''])
   \<and> map_err (command_of ''document'')
        (finditer (target_pattern ''/document'') ''/fix a.java and also /document b.java'')
       = Inr [Document ''b.java'']
   \<and> sorted_wrt (<) (map m_start
        (finditer (target_pattern ''/document'') ''/fix a.java and also /document b.java''))"
proof -
  have h: "detect_commands ''/fix a.java and also /document b.java''
     = Inr [Fix ''a.java'', Document ''b.java'']"
    by code_simp
  have mem: "(''document'', target_pattern ''/document'') \<in> set COMMAND_PATTERNS"
    by (simp add: COMMAND_PATTERNS_def)
  from detect_order_by_kind [OF h, of "''document''" "target_pattern ''/document''"] mem
  show ?thesis using h by simp
qed

section \<open>Keywords, arguments and empty quotes\<close>

text \<open>
  C8, as the code has it. The claim is that the keyword is matched without regard to
  case and that the captured argument keeps its case. The patterns are applied with the
  flag \<open>re.MULTILINE\<close> only, so matching is case-sensitive: a command of a type is
  returned only where the text has a slash followed by the type exactly as the table
  writes it, in lower case. The captured argument is not changed: the target of a
  one-argument command is, character for character, a bare token or the inside of a
  quoted string that stands in the text after the keyword and whitespace, and the feature
  and the target of add are such arguments before and after the word \<open>to\<close>. So
  \<open>/fix Foo.java\<close> gives the target \<open>Foo.java\<close>, and \<open>/FIX Foo.java\<close> gives no
  command.
\<close>

theorem keyword_exact:
  "(detect_commands text = Inr cmds \<and> (k, a) \<in> set cmds \<longrightarrow>
      (\<exists>pre post. text = pre @ CHR ''/'' # k @ post))
   \<and> (detect_commands text = Inr cmds \<and> (k, Target (PyStr t)) \<in> set cmds \<longrightarrow>
      (\<exists>pre ws x post. text = pre @ CHR ''/'' # k @ ws @ render_arg x @ post
          \<and> ws \<noteq> [] \<and> list_all isspace ws \<and> valid_arg x \<and> arg_text x = t))
   \<and> (detect_commands input = Inr found \<and> (k', AddArgs (PyStr f) (PyStr v)) \<in> set found \<longrightarrow>
      (\<exists>pre w1 x w2 w3 y post.
          input = pre @ ''/add'' @ w1 @ render_arg x @ w2 @ ''to'' @ w3 @ render_arg y @ post
          \<and> w1 \<noteq> [] \<and> list_all isspace w1 \<and> w2 \<noteq> [] \<and> list_all isspace w2
          \<and> w3 \<noteq> [] \<and> list_all isspace w3
          \<and> valid_arg x \<and> arg_text x = f \<and> valid_arg y \<and> arg_text y = v))
   \<and> detect_commands ''/fix Foo.java'' = Inr [Fix ''Foo.java'']
   \<and> detect_commands ''/FIX Foo.java'' = Inr []"
proof (intro conjI impI)
  assume a: "detect_commands text = Inr cmds \<and> (k, a) \<in> set cmds"
  then have d: "detect_loop COMMAND_PATTERNS text = Inr cmds" and c: "(k, a) \<in> set cmds"
    by (simp_all add: detect_commands_def)
  from detect_loop_elem [OF d c] obtain k0 p m where
    kp: "(k0, p) \<in> set COMMAND_PATTERNS" and m: "m \<in> set (finditer p text)"
    and co: "command_of k0 m = Inr (k, a)" by blast
  from command_of_fst [OF co] have k: "k0 = k" by simp
  from finditer_elem [OF m] obtain pre s0 rest where
    t: "text = pre @ s0" and ma: "match_at p s0 = Some (rest, m_groups m)" by blast
  from table_keyword [OF kp match_at_Some_mem [OF ma]] obtain post where
    "s0 = CHR ''/'' # k0 @ post" by blast
  with t k show "\<exists>pre post. text = pre @ CHR ''/'' # k @ post" by blast
next
  assume a: "detect_commands text = Inr cmds \<and> (k, Target (PyStr t)) \<in> set cmds"
  then have d: "detect_loop COMMAND_PATTERNS text = Inr cmds"
    and c: "(k, Target (PyStr t)) \<in> set cmds"
    by (simp_all add: detect_commands_def)
  from detect_loop_elem [OF d c] obtain k0 p m where
    "(k0, p) \<in> set COMMAND_PATTERNS" "m \<in> set (finditer p text)"
    "command_of k0 m = Inr (k, Target (PyStr t))" by blast
  then show "\<exists>pre ws x post. text = pre @ CHR ''/'' # k @ ws @ render_arg x @ post
          \<and> ws \<noteq> [] \<and> list_all isspace ws \<and> valid_arg x \<and> arg_text x = t"
    by (rule table_Target_text)
next
  assume a: "detect_commands input = Inr found \<and> (k', AddArgs (PyStr f) (PyStr v)) \<in> set found"
  then have d: "detect_loop COMMAND_PATTERNS input = Inr found"
    and c: "(k', AddArgs (PyStr f) (PyStr v)) \<in> set found"
    by (simp_all add: detect_commands_def)
  from detect_loop_elem [OF d c] obtain k0 p m where
    "(k0, p) \<in> set COMMAND_PATTERNS" "m \<in> set (finditer p input)"
    "command_of k0 m = Inr (k', AddArgs (PyStr f) (PyStr v))" by blast
  then show "\<exists>pre w1 x w2 w3 y post.
          input = pre @ ''/add'' @ w1 @ render_arg x @ w2 @ ''to'' @ w3 @ render_arg y @ post
          \<and> w1 \<noteq> [] \<and> list_all isspace w1 \<and> w2 \<noteq> [] \<and> list_all isspace w2
          \<and> w3 \<noteq> [] \<and> list_all isspace w3
          \<and> valid_arg x \<and> arg_text x = f \<and> valid_arg y \<and> arg_text y = v"
    by (rule table_AddArgs_text)
next
  show "detect_commands ''/fix Foo.java'' = Inr [Fix ''Foo.java'']" by code_simp
next
  show "detect_commands ''/FIX Foo.java'' = Inr []" by code_simp
qed

theorem keyword_exact_witness:
  "detect_commands ''/fix Foo.java'' = Inr [Fix ''Foo.java'']
   \<and> (\<exists>pre post. ''/fix Foo.java'' = pre @ CHR ''/'' # ''fix'' @ post)
   \<and> (\<exists>pre ws x post. ''/fix Foo.java'' = pre @ CHR ''/'' # ''fix'' @ ws @ render_arg x @ post
          \<and> ws \<noteq> [] \<and> list_all isspace ws \<and> valid_arg x \<and> arg_text x = ''Foo.java'')
   \<and> detect_commands ''/add Dark to Panel.java'' = Inr [Add ''Dark'' ''Panel.java'']
   \<and> (\<exists>pre w1 x w2 w3 y post.
          ''/add Dark to Panel.java''
            = pre @ ''/add'' @ w1 @ render_arg x @ w2 @ ''to'' @ w3 @ render_arg y @ post
          \<and> w1 \<noteq> [] \<and> list_all isspace w1 \<and> w2 \<noteq> [] \<and> list_all isspace w2
          \<and> w3 \<noteq> [] \<and> list_all isspace w3
          \<and> valid_arg x \<and> arg_text x = ''Dark'' \<and> valid_arg y \<and> arg_text y = ''Panel.java'')"
proof -
  have h1: "detect_commands ''/fix Foo.java'' = Inr [Fix ''Foo.java'']" by code_simp
  have h2: "detect_commands ''/add Dark to Panel.java'' = Inr [Add ''Dark'' ''Panel.java'']"
    by code_simp
  note th = keyword_exact [of "''/fix Foo.java''" "[Fix ''Foo.java'']" "''fix''"
      "Target (PyStr ''Foo.java'')" "''Foo.java''" "''/add Dark to Panel.java''"
      "[Add ''Dark'' ''Panel.java'']" "''add''" "''Dark''" "''Panel.java''"]
  have m1: "(''fix'', Target (PyStr ''Foo.java'')) \<in> set [Fix ''Foo.java'']" by simp
  have m2: "(''add'', AddArgs (PyStr ''Dark'') (PyStr ''Panel.java''))
      \<in> set [Add ''Dark'' ''Panel.java'']" by simp
  from th h1 m1 have a: "\<exists>pre post. ''/fix Foo.java'' = pre @ CHR ''/'' # ''fix'' @ post"
    by blast
  from th h1 m1 have b: "\<exists>pre ws x post.
      ''/fix Foo.java'' = pre @ CHR ''/'' # ''fix'' @ ws @ render_arg x @ post
          \<and> ws \<noteq> [] \<and> list_all isspace ws \<and> valid_arg x \<and> arg_text x = ''Foo.java''"
    by blast
  from th h2 m2 have c: "\<exists>pre w1 x w2 w3 y post.
          ''/add Dark to Panel.java''
            = pre @ ''/add'' @ w1 @ render_arg x @ w2 @ ''to'' @ w3 @ render_arg y @ post
          \<and> w1 \<noteq> [] \<and> list_all isspace w1 \<and> w2 \<noteq> [] \<and> list_all isspace w2
          \<and> w3 \<noteq> [] \<and> list_all isspace w3
          \<and> valid_arg x \<and> arg_text x = ''Dark'' \<and> valid_arg y \<and> arg_text y = ''Panel.java''"
    by blast
  from h1 h2 a b c show ?thesis by blast
qed

text \<open>
  C5, as the code has it. The claim is that a keyword followed by an empty pair of
  double quotes gives a command with an empty target. Both alternatives of the argument
  pattern need at least one character, the quoted one between the quotes and the bare
  one before any quote, and what \<open>\s+\<close> can give back is whitespace, at which neither
  alternative starts. So where the text has a slash, a keyword that takes a target or a
  feature (fix, improve, document, add, analyze, explain, refactor, test), any whitespace
  and an empty pair of quotes, no pattern of the table has a match that starts at that
  slash, whatever stands before and after; each command comes from one match, so the
  occurrence gives none. When the text has no other slash the result is the empty list,
  as for \<open>/fix ""\<close> and the other one-argument keywords; \<open>_extract_commands\<close>, whose
  patterns are the same, returns the empty list on \<open>/fix ""\<close> too.
\<close>

theorem empty_quotes_no_match:
  "(k \<in> set (''add'' # target_keywords) \<and> list_all isspace ws
        \<and> (k', p') \<in> set COMMAND_PATTERNS
        \<and> m \<in> set (finditer p' (pre @ CHR ''/'' # k @ ws @ dquote # dquote # rest)) \<longrightarrow>
      m_start m \<noteq> length pre)
   \<and> (k \<in> set (''add'' # target_keywords) \<and> list_all isspace ws
        \<and> CHR ''/'' \<notin> set before \<and> CHR ''/'' \<notin> set after \<longrightarrow>
      detect_commands (before @ CHR ''/'' # k @ ws @ dquote # dquote # after) = Inr [])
   \<and> regex_match (target_arg i j) (dquote # dquote # rest) g = []
   \<and> detect_commands (''/fix '' @ [dquote, dquote]) = Inr []
   \<and> detect_commands (''/improve '' @ [dquote, dquote]) = Inr []
   \<and> detect_commands (''/document '' @ [dquote, dquote]) = Inr []
   \<and> detect_commands (''/analyze '' @ [dquote, dquote]) = Inr []
   \<and> detect_commands (''/explain '' @ [dquote, dquote]) = Inr []
   \<and> detect_commands (''/refactor '' @ [dquote, dquote]) = Inr []
   \<and> detect_commands (''/test '' @ [dquote, dquote]) = Inr []
   \<and> extract_commands (''/fix '' @ [dquote, dquote]) = Inr []"
proof (intro conjI impI)
  assume a: "k \<in> set (''add'' # target_keywords) \<and> list_all isspace ws
        \<and> (k', p') \<in> set COMMAND_PATTERNS
        \<and> m \<in> set (finditer p' (pre @ CHR ''/'' # k @ ws @ dquote # dquote # rest))"
  then have k: "k \<in> set (''add'' # target_keywords)" and ws: "list_all isspace ws"
    and kp: "(k', p') \<in> set COMMAND_PATTERNS"
    and m: "m \<in> set (finditer p' (pre @ CHR ''/'' # k @ ws @ dquote # dquote # rest))"
    by blast+
  show "m_start m \<noteq> length pre"
  proof
    assume "m_start m = length pre"
    from finditer_start_match [OF m this] empty_quotes_table_None [OF k ws kp, of rest]
    show False by simp
  qed
next
  assume a: "k \<in> set (''add'' # target_keywords) \<and> list_all isspace ws
        \<and> CHR ''/'' \<notin> set before \<and> CHR ''/'' \<notin> set after"
  then have k: "k \<in> set (''add'' # target_keywords)" and ws: "list_all isspace ws"
    and b: "CHR ''/'' \<notin> set before" and af: "CHR ''/'' \<notin> set after" by blast+
  from ws isspace_not_slash have "CHR ''/'' \<notin> set ws" by (auto simp: list_all_iff)
  with keyword_entry [OF k] af have x: "CHR ''/'' \<notin> set (k @ ws @ dquote # dquote # after)"
    by simp
  show "detect_commands (before @ CHR ''/'' # k @ ws @ dquote # dquote # after) = Inr []"
    by (rule detect_none_single_slash [OF b x]) (rule empty_quotes_table_None [OF k ws])
next
  show "regex_match (target_arg i j) (dquote # dquote # rest) g = []"
    by (simp add: target_arg_def)
qed code_simp+

theorem empty_quotes_no_match_witness:
  "map m_start (finditer (target_pattern ''/fix'') (''/fix '' @ [dquote, dquote] @ '' /fix a''))
     = [8]
   \<and> m_start (hd (finditer (target_pattern ''/fix'')
        (''/fix '' @ [dquote, dquote] @ '' /fix a''))) \<noteq> 0
   \<and> detect_commands (''see /fix '' @ [dquote, dquote] @ '' x'') = Inr []"
proof -
  let ?ms = "finditer (target_pattern ''/fix'') (''/fix '' @ [dquote, dquote] @ '' /fix a'')"
  have k: "''fix'' \<in> set (''add'' # target_keywords)" by (simp add: target_keywords_def)
  have ws: "list_all isspace '' ''" by (simp add: isspace_def)
  have kp: "(''fix'', target_pattern ''/fix'') \<in> set COMMAND_PATTERNS"
    by (simp add: COMMAND_PATTERNS_def)
  have a: "map m_start ?ms = [8]" by code_simp
  then have "?ms \<noteq> []" by auto
  then have mem: "hd ?ms \<in> set ?ms" by (rule hd_in_set)
  note th = empty_quotes_no_match [of "''fix''" "'' ''" "''fix''" "target_pattern ''/fix''"
        "hd ?ms" "[]" "'' /fix a''" "''see ''" "'' x''"]
  have b: "m_start (hd ?ms) \<noteq> 0" using th k ws kp mem by simp
  have c: "detect_commands (''see /fix '' @ [dquote, dquote] @ '' x'') = Inr []"
    using th k ws by simp
  from a b c show ?thesis by blast
qed

section \<open>The implement pattern\<close>

text \<open>
  C4, as the code has it. The claim is that an implement occurrence followed by neither
  \<open>all\<close> nor a digit gives no command. The class of the index group holds the comma and
  whitespace besides the digits, and \<open>\s+\<close> gives a character back when the group has
  nothing else to match: \<open>/implement ,\<close> and \<open>/implement  banana\<close> with two blanks give
  a command with an empty index list. What holds is this: where \<open>/implement\<close> is followed
  by at most one whitespace character and then by the end of the text or by a character
  that is no digit, comma or whitespace and does not begin \<open>all\<close>, no pattern of the
  table has a match that starts at that occurrence, whatever stands before it; when the
  text has no other slash the result is the empty list. The three examples of the claim
  hold.
\<close>

theorem implement_needs_all_or_digit:
  assumes "list_all isspace ws" and "length ws \<le> 1"
    and "rest = [] \<or> (\<not> is_decimal (hd rest) \<and> hd rest \<noteq> CHR '','' \<and> \<not> isspace (hd rest))"
    and "take 3 rest \<noteq> ''all''"
  shows "((k, p) \<in> set COMMAND_PATTERNS
            \<and> m \<in> set (finditer p (pre @ ''/implement'' @ ws @ rest)) \<longrightarrow>
          m_start m \<noteq> length pre)
       \<and> (CHR ''/'' \<notin> set before \<and> CHR ''/'' \<notin> set rest \<longrightarrow>
            detect_commands (before @ ''/implement'' @ ws @ rest) = Inr [])
       \<and> detect_commands ''/implement banana'' = Inr []
       \<and> detect_commands ''/implement 1, 3, 5'' = Inr [Implement_Indices [1, 3, 5]]
       \<and> detect_commands ''/implement all'' = Inr [Implement_All]
       \<and> detect_commands ''/implement ,'' = Inr [Implement_Indices []]
       \<and> detect_commands ''/implement  banana'' = Inr [Implement_Indices []]"
proof (intro conjI impI)
  assume a: "(k, p) \<in> set COMMAND_PATTERNS
      \<and> m \<in> set (finditer p (pre @ ''/implement'' @ ws @ rest))"
  then have kp: "(k, p) \<in> set COMMAND_PATTERNS"
    and m: "m \<in> set (finditer p (pre @ ''/implement'' @ ws @ rest))" by blast+
  show "m_start m \<noteq> length pre"
  proof
    assume "m_start m = length pre"
    from finditer_start_match [OF m this] implement_table_None [OF assms kp]
    show False by simp
  qed
next
  assume a: "CHR ''/'' \<notin> set before \<and> CHR ''/'' \<notin> set rest"
  from assms(1) isspace_not_slash have "CHR ''/'' \<notin> set ws" by (auto simp: list_all_iff)
  with a have x: "CHR ''/'' \<notin> set (''implement'' @ ws @ rest)" by simp
  have "detect_commands (before @ CHR ''/'' # (''implement'' @ ws @ rest)) = Inr []"
  proof (rule detect_none_single_slash [OF _ x])
    from a show "CHR ''/'' \<notin> set before" by blast
  next
    fix k p
    assume "(k, p) \<in> set COMMAND_PATTERNS"
    from implement_table_None [OF assms this]
    show "match_at p (CHR ''/'' # ''implement'' @ ws @ rest) = None" by simp
  qed
  then show "detect_commands (before @ ''/implement'' @ ws @ rest) = Inr []" by simp
qed code_simp+

theorem implement_needs_all_or_digit_witness:
  "list_all isspace '' '' \<and> length '' '' \<le> 1
   \<and> map m_start (finditer implement_pattern ''/implement 2 and /implement banana'') = [0]
   \<and> m_start (hd (finditer implement_pattern ''/implement 2 and /implement banana'')) \<noteq> 17
   \<and> detect_commands ''please /implement banana'' = Inr []"
proof -
  let ?ms = "finditer implement_pattern ''/implement 2 and /implement banana''"
  have a: "list_all isspace '' ''" by (simp add: isspace_def)
  have a': "length '' '' \<le> 1" by simp
  have b: "''banana'' = [] \<or> (\<not> is_decimal (hd ''banana'') \<and> hd ''banana'' \<noteq> CHR '',''
      \<and> \<not> isspace (hd ''banana''))"
    by (simp add: is_decimal_def isspace_def)
  have c: "take 3 ''banana'' \<noteq> ''all''" by simp
  have kp: "(''implement'', implement_pattern) \<in> set COMMAND_PATTERNS"
    by (simp add: COMMAND_PATTERNS_def)
  have d: "map m_start ?ms = [0]" by code_simp
  then have "?ms \<noteq> []" by auto
  then have mem: "hd ?ms \<in> set ?ms" by (rule hd_in_set)
  note th = implement_needs_all_or_digit [OF a a' b c, of "''implement''" implement_pattern
        "hd ?ms" "''/implement 2 and ''" "''please ''"]
  have e: "m_start (hd ?ms) \<noteq> 17" using th kp mem by simp
  have f: "detect_commands ''please /implement banana'' = Inr []" using th by simp
  from a a' d e f show ?thesis by blast
qed

section \<open>Round trip\<close>



section \<open>Occurrences\<close>



end
